theory Spec2Isabelle
  imports Main "HOL-Library.Word"
begin

section \<open>Memory, machine integers and the element model\<close>

text \<open>
  The serializer of \<^verbatim>\<open>rlp_serializer.c\<close> works on raw memory through pointers. The
  model keeps one flat byte store, a function from addresses to bytes. A pointer is an
  address, the null pointer is address 0. Pointer arithmetic is arithmetic on natural
  numbers and does not wrap. Every read or write of the source, also one outside the
  buffer the caller handed in, is a read or write of this store, so an overrun shows as
  a changed byte outside the buffer.

  \<^verbatim>\<open>size_t\<close> is 64 bits wide and \<^verbatim>\<open>int\<close> is 32 bits wide. Sizes are natural numbers and
  the wrap-around of \<^verbatim>\<open>size_t\<close> arithmetic is written out with \<open>size_t\<close>; the conversion
  of a size to \<^verbatim>\<open>int\<close> is \<open>c_int\<close> and keeps the low 32 bits, read as two's complement
  (what the usual compilers do with a value that does not fit); the conversion of an
  \<^verbatim>\<open>int\<close> back to \<^verbatim>\<open>size_t\<close> is \<open>size_t_of_int\<close>. A value of type \<^verbatim>\<open>int\<close> is an
  integer of HOL; the source never adds to one beyond its range where the theorems
  below apply.

  The element descriptors (\<^verbatim>\<open>struct rlpElement\<close>) are values of the model, not bytes of
  the store: a destination that overlaps a descriptor is outside the model.
\<close>

type_synonym byte = "8 word"
type_synonym mem = "nat \<Rightarrow> byte"

definition size_t :: "nat \<Rightarrow> nat" where
  "size_t n = n mod 2 ^ 64"

definition c_int :: "nat \<Rightarrow> int" where
  "c_int n = (if n mod 2 ^ 32 < 2 ^ 31 then int (n mod 2 ^ 32) else int (n mod 2 ^ 32) - 2 ^ 32)"

definition size_t_of_int :: "int \<Rightarrow> nat" where
  "size_t_of_int i = nat (i mod 2 ^ 64)"

datatype RlpType_t =
    RLP_TYPE_INVALID
  | RLP_TYPE_BYTE_ARRAY
  | RLP_TYPE_INT8
  | RLP_TYPE_INT16
  | RLP_TYPE_INT32
  | RLP_TYPE_INT64
  | RLP_TYPE_INT128
  | RLP_TYPE_INT256
  | RLP_TYPE_INT512
  | RLP_TYPE_INT1024

text \<open>\<^verbatim>\<open>RLP_TYPE_IS_INTEGER_TYPE(x)\<close>: the tags from \<^verbatim>\<open>RLP_TYPE_INT8\<close> to \<^verbatim>\<open>RLP_TYPE_INT1024\<close>.\<close>

fun RLP_TYPE_IS_INTEGER_TYPE :: "RlpType_t \<Rightarrow> bool" where
  "RLP_TYPE_IS_INTEGER_TYPE RLP_TYPE_INVALID = False"
| "RLP_TYPE_IS_INTEGER_TYPE RLP_TYPE_BYTE_ARRAY = False"
| "RLP_TYPE_IS_INTEGER_TYPE _ = True"

text \<open>
  \<^verbatim>\<open>struct rlpElement\<close>: the tag, the declared length of the data and the address of the
  data. The element does not own its bytes: they are read from the store.
\<close>

record RlpElement_t =
  type :: RlpType_t
  len :: nat
  buff :: nat

text \<open>\<^verbatim>\<open>ERLPError_e\<close>: the enumeration starts at \<^verbatim>\<open>INT8_MIN\<close> and counts upwards.\<close>

definition ERR_RLP_EUNKNOWN :: int where "ERR_RLP_EUNKNOWN = - 128"
definition ERR_RLP_EBADARG :: int where "ERR_RLP_EBADARG = - 127"
definition ERR_RLP_EILLEGALMEM :: int where "ERR_RLP_EILLEGALMEM = - 126"
definition ERR_RLP_ENOMEM :: int where "ERR_RLP_ENOMEM = - 125"
definition ERR_RLP_OK :: int where "ERR_RLP_OK = 0"

text \<open>\<^verbatim>\<open>enum rlpProtocolConstants\<close>.\<close>

definition RLP_EXTENDED_LENGTH_THRESHOLD :: nat where "RLP_EXTENDED_LENGTH_THRESHOLD = 55"
definition RLP_OFFSET_LIST_SHORT :: nat where "RLP_OFFSET_LIST_SHORT = 0xC0"
definition RLP_OFFSET_LIST_LONG :: nat where "RLP_OFFSET_LIST_LONG = 0xF7"
definition RLP_OFFSET_ITEM_SHORT :: nat where "RLP_OFFSET_ITEM_SHORT = 0x80"
definition RLP_OFFSET_ITEM_LONG :: nat where "RLP_OFFSET_ITEM_LONG = 0xB7"

section \<open>Utilities\<close>

text \<open>
  \<^verbatim>\<open>rlp_memoverlap\<close>: the three disjuncts of the source, in its order. The comparisons
  are \<^verbatim>\<open>>=\<close>, so a region that ends exactly where the other starts counts as overlapping.
\<close>

definition rlp_memoverlap :: "nat \<Rightarrow> nat \<Rightarrow> nat \<Rightarrow> nat \<Rightarrow> bool" where
  "rlp_memoverlap aAddr sza bAddr szb =
     (aAddr = bAddr \<or>
      (aAddr < bAddr \<and> aAddr + sza \<ge> bAddr) \<or>
      (bAddr < aAddr \<and> bAddr + szb \<ge> aAddr))"

fun rlp_int_size_from_type :: "RlpType_t \<Rightarrow> int" where
  "rlp_int_size_from_type RLP_TYPE_INT8 = 1"
| "rlp_int_size_from_type RLP_TYPE_INT16 = 2"
| "rlp_int_size_from_type RLP_TYPE_INT32 = 4"
| "rlp_int_size_from_type RLP_TYPE_INT64 = 8"
| "rlp_int_size_from_type RLP_TYPE_INT128 = 16"
| "rlp_int_size_from_type RLP_TYPE_INT256 = 32"
| "rlp_int_size_from_type RLP_TYPE_INT512 = 64"
| "rlp_int_size_from_type RLP_TYPE_INT1024 = 128"
| "rlp_int_size_from_type _ = ERR_RLP_EBADARG"

text \<open>
  \<^verbatim>\<open>rlp_type_mem_check\<close>: the comparison \<^verbatim>\<open>buffSz == rlp_int_size_from_type(type)\<close> is
  between a \<^verbatim>\<open>size_t\<close> and an \<^verbatim>\<open>int\<close>, so the \<^verbatim>\<open>int\<close> is converted first.
\<close>

definition rlp_type_mem_check :: "nat \<Rightarrow> RlpType_t \<Rightarrow> bool" where
  "rlp_type_mem_check buffSz t =
     (if RLP_TYPE_IS_INTEGER_TYPE t then buffSz = size_t_of_int (rlp_int_size_from_type t)
      else if t = RLP_TYPE_BYTE_ARRAY then True
      else False)"

text \<open>
  \<^verbatim>\<open>memcpy(dst, src, n)\<close>: the \<open>n\<close> bytes from \<open>src\<close> on, as they are before the call,
  land at \<open>dst\<close> on. (C leaves a copy between overlapping regions undefined; the model
  gives it this meaning.)
\<close>

definition memcpy :: "mem \<Rightarrow> nat \<Rightarrow> nat \<Rightarrow> nat \<Rightarrow> mem" where
  "memcpy m dst src n = (\<lambda>a. if dst \<le> a \<and> a < dst + n then m (src + (a - dst)) else m a)"

text \<open>The bytes of the store from an address on, as a list.\<close>

definition read_bytes :: "mem \<Rightarrow> nat \<Rightarrow> nat \<Rightarrow> byte list" where
  "read_bytes m a n = map m [a ..< a + n]"

section \<open>Encoding one element\<close>

text \<open>
  The scan for the first non-zero byte of an integer element (the \<^verbatim>\<open>scanZero\<close> loop).
  The loop state is the pair \<^verbatim>\<open>(rlpElementBuff, rlpElementLen)\<close>; the loop bound is the
  declared length \<^verbatim>\<open>rlpElement->len\<close>, which the loop does not change.
\<close>

function scanZero_loop :: "mem \<Rightarrow> nat \<Rightarrow> nat \<Rightarrow> nat \<Rightarrow> nat \<times> nat \<Rightarrow> nat \<times> nat" where
  "scanZero_loop m buffBase n scanZero (rlpElementBuff, rlpElementLen) =
     (if scanZero < n then
        (if m (buffBase + scanZero) \<noteq> 0 then (buffBase + scanZero, rlpElementLen - scanZero)
         else if scanZero = n - 1 then scanZero_loop m buffBase n (scanZero + 1) (rlpElementBuff, 0)
         else scanZero_loop m buffBase n (scanZero + 1) (rlpElementBuff, rlpElementLen))
      else (rlpElementBuff, rlpElementLen))"
  by pat_completeness auto
termination
  by (relation "measure (\<lambda>(m, buffBase, n, scanZero, st). n - scanZero)") auto

declare scanZero_loop.simps [simp del]

text \<open>
  The loop \<^verbatim>\<open>while (tmpLength != 0) { ++lengthOfLength; tmpLength = tmpLength >> 8; }\<close>
  on an \<^verbatim>\<open>int\<close>. The shift of a negative \<^verbatim>\<open>int\<close> is arithmetic (it rounds towards minus
  infinity, as \<open>div\<close> does), so from a negative start the loop reaches \<open>-1\<close> and stays
  there: it does not return, which is the value \<open>None\<close>.
\<close>

partial_function (option) lengthOfLength_loop :: "int \<Rightarrow> nat \<Rightarrow> nat option" where
  "lengthOfLength_loop tmpLength lengthOfLength =
     (if tmpLength \<noteq> 0 then lengthOfLength_loop (tmpLength div 256) (lengthOfLength + 1)
      else Some lengthOfLength)"

text \<open>
  The loop \<^verbatim>\<open>for(int i = lengthOfLength; i > 0; --i) { rlpOut[i] = (uint8_t) tmpLength;
  tmpLength = tmpLength >> 8; }\<close> that writes the length, lowest byte last.
\<close>

function write_length_loop :: "mem \<Rightarrow> nat \<Rightarrow> int \<Rightarrow> int \<Rightarrow> mem" where
  "write_length_loop m rlpOut i tmpLength =
     (if i > 0 then
        write_length_loop (m(rlpOut + nat i := word_of_int tmpLength)) rlpOut (i - 1) (tmpLength div 256)
      else m)"
  by pat_completeness auto
termination
  by (relation "measure (\<lambda>(m, rlpOut, i, tmpLength). nat i)") auto

declare write_length_loop.simps [simp del]

text \<open>
  \<^verbatim>\<open>rlp_encode_element\<close>. The element pointer may be null (\<open>None\<close>). The result is the
  returned \<^verbatim>\<open>int\<close> with the store after the call, or \<open>None\<close> when the call does not
  return. The long form copies \<^verbatim>\<open>rlpElementLen + lengthOfLength + 1\<close> bytes, as the source
  does.
\<close>

definition rlp_encode_element :: "mem \<Rightarrow> nat \<Rightarrow> nat \<Rightarrow> RlpElement_t option \<Rightarrow> (int \<times> mem) option" where
  "rlp_encode_element m rlpEncodedOutput rlpEncodedOutputLen rlpElement =
     (case rlpElement of
        None \<Rightarrow> Some (ERR_RLP_EBADARG, m)
      | Some e \<Rightarrow>
        if rlpEncodedOutput = 0 \<or> rlpEncodedOutputLen = 0 \<or> type e = RLP_TYPE_INVALID \<or>
           \<not> rlp_type_mem_check (len e) (type e)
        then Some (ERR_RLP_EBADARG, m)
        else if rlpEncodedOutputLen < size_t (len e + 1) then Some (ERR_RLP_ENOMEM, m)
        else if rlp_memoverlap rlpEncodedOutput rlpEncodedOutputLen (buff e) (len e)
        then Some (ERR_RLP_EILLEGALMEM, m)
        else
          let rlpOut = rlpEncodedOutput;
              (rlpElementBuff, rlpElementLen) =
                (if RLP_TYPE_IS_INTEGER_TYPE (type e)
                 then scanZero_loop m (buff e) (len e) 0 (buff e, len e)
                 else (buff e, len e))
          in
          if rlpElementLen = 0 then
            Some (c_int 1, m(rlpOut := word_of_nat RLP_OFFSET_ITEM_SHORT))
          else if rlpElementLen = 1 \<and>
                  (m rlpElementBuff = 0 \<or> unat (m rlpElementBuff) < RLP_OFFSET_ITEM_SHORT) then
            Some (c_int 1, m(rlpOut := m rlpElementBuff))
          else if rlpElementLen \<le> RLP_EXTENDED_LENGTH_THRESHOLD then
            Some (c_int (size_t (rlpElementLen + 1)),
                  memcpy (m(rlpOut := word_of_nat (RLP_OFFSET_ITEM_SHORT + rlpElementLen)))
                    (rlpOut + 1) rlpElementBuff rlpElementLen)
          else
            (case lengthOfLength_loop (c_int rlpElementLen) 0 of
               None \<Rightarrow> None
             | Some lengthOfLength \<Rightarrow>
               if rlpEncodedOutputLen < size_t (rlpElementLen + lengthOfLength + 1)
               then Some (ERR_RLP_ENOMEM, m)
               else
                 let m1 = m(rlpOut := word_of_nat (RLP_OFFSET_ITEM_LONG + lengthOfLength));
                     m2 = write_length_loop m1 rlpOut (c_int lengthOfLength) (c_int rlpElementLen);
                     m3 = memcpy m2 (rlpOut + 1 + lengthOfLength) rlpElementBuff
                            (size_t (rlpElementLen + lengthOfLength + 1))
                 in Some (c_int (size_t (rlpElementLen + lengthOfLength + 1)), m3)))"

section \<open>Encoding a list\<close>

text \<open>
  The array of element pointers is the list of the elements it points to, in order;
  a null array pointer is \<open>None\<close>. No entry of the array is null: the source
  dereferences each entry without a check. The loops over the array are recursions over
  the list (their counter is an \<^verbatim>\<open>int\<close> compared with the \<^verbatim>\<open>size_t\<close> count, which is the
  same for fewer than \<open>2 ^ 31\<close> elements; the theorems about lists are stated for such
  lists).

  The first loop of \<^verbatim>\<open>rlp_encode_list\<close>: for each element the space check, then the
  overlap check against the whole destination. \<open>None\<close> means that every element passed.
\<close>

fun preflight_loop :: "nat \<Rightarrow> nat \<Rightarrow> nat \<Rightarrow> RlpElement_t list \<Rightarrow> int option" where
  "preflight_loop rlpEncodedOutput rlpEncodedOutputLen spaceRemaining [] = None"
| "preflight_loop rlpEncodedOutput rlpEncodedOutputLen spaceRemaining (e # es) =
     (if spaceRemaining < size_t (len e + 1) then Some ERR_RLP_ENOMEM
      else if rlp_memoverlap rlpEncodedOutput rlpEncodedOutputLen (buff e) (len e)
      then Some ERR_RLP_EILLEGALMEM
      else preflight_loop rlpEncodedOutput rlpEncodedOutputLen
             (spaceRemaining - size_t (len e + 1)) es)"

text \<open>
  The second loop: each element is encoded at \<^verbatim>\<open>rlpOut + rlpEncodedLen\<close> with the capacity
  \<^verbatim>\<open>rlpEncodedOutputLen - rlpEncodedLen\<close> (a \<^verbatim>\<open>size_t\<close> subtraction). A negative \<^verbatim>\<open>ret\<close>
  is returned at once (\<open>Inl\<close>); otherwise the loop ends with the accumulated length
  (\<open>Inr\<close>).
\<close>

fun encode_loop :: "mem \<Rightarrow> nat \<Rightarrow> nat \<Rightarrow> nat \<Rightarrow> RlpElement_t list \<Rightarrow> ((int + nat) \<times> mem) option" where
  "encode_loop m rlpOut rlpEncodedOutputLen rlpEncodedLen [] = Some (Inr rlpEncodedLen, m)"
| "encode_loop m rlpOut rlpEncodedOutputLen rlpEncodedLen (e # es) =
     (case rlp_encode_element m (rlpOut + rlpEncodedLen)
             (size_t_of_int (int rlpEncodedOutputLen - int rlpEncodedLen)) (Some e) of
        None \<Rightarrow> None
      | Some (ret, m') \<Rightarrow>
          if ret < 0 then Some (Inl ret, m')
          else encode_loop m' rlpOut rlpEncodedOutputLen
                 (size_t (rlpEncodedLen + size_t_of_int ret)) es)"

text \<open>
  \<^verbatim>\<open>for(int byteShifts = rlpEncodedLen; byteShifts > 0; byteShifts = byteShifts >> 8)
  listHdrByteCnt++;\<close> with \<^verbatim>\<open>uint8_t listHdrByteCnt\<close>.
\<close>

function listHdrByteCnt_loop :: "int \<Rightarrow> nat \<Rightarrow> nat" where
  "listHdrByteCnt_loop byteShifts listHdrByteCnt =
     (if byteShifts > 0 then listHdrByteCnt_loop (byteShifts div 256) ((listHdrByteCnt + 1) mod 256)
      else listHdrByteCnt)"
  by pat_completeness auto
termination
  by (relation "measure (\<lambda>(byteShifts, listHdrByteCnt). nat byteShifts)") auto

declare listHdrByteCnt_loop.simps [simp del]

text \<open>
  \<^verbatim>\<open>for(int i = (listHdrByteCnt + rlpEncodedLen); i >= listHdrByteCnt; i--)
  rlpOut[i] = rlpOut[i - (listHdrByteCnt)];\<close>: the shift, highest index first. The first
  index written is \<^verbatim>\<open>listHdrByteCnt + rlpEncodedLen\<close>.
\<close>

function shift_loop :: "mem \<Rightarrow> nat \<Rightarrow> nat \<Rightarrow> int \<Rightarrow> mem" where
  "shift_loop m rlpOut listHdrByteCnt i =
     (if i \<ge> int listHdrByteCnt then
        shift_loop (m(rlpOut + nat i := m (rlpOut + nat (i - int listHdrByteCnt))))
          rlpOut listHdrByteCnt (i - 1)
      else m)"
  by pat_completeness auto
termination
  by (relation "measure (\<lambda>(m, rlpOut, listHdrByteCnt, i). nat (i - int listHdrByteCnt + 1))") auto

declare shift_loop.simps [simp del]

text \<open>
  \<^verbatim>\<open>for(int i = 0; i < listHdrByteCnt; i++) rlpOut[(listHdrByteCnt - 1) - i] =
  (uint8_t) (rlpEncodedLen >> (8 * i));\<close>
\<close>

function header_loop :: "mem \<Rightarrow> nat \<Rightarrow> nat \<Rightarrow> nat \<Rightarrow> nat \<Rightarrow> mem" where
  "header_loop m rlpOut listHdrByteCnt rlpEncodedLen i =
     (if i < listHdrByteCnt then
        header_loop (m(rlpOut + ((listHdrByteCnt - 1) - i) := word_of_nat (rlpEncodedLen div 2 ^ (8 * i))))
          rlpOut listHdrByteCnt rlpEncodedLen (i + 1)
      else m)"
  by pat_completeness auto
termination
  by (relation "measure (\<lambda>(m, rlpOut, listHdrByteCnt, rlpEncodedLen, i). listHdrByteCnt - i)") auto

declare header_loop.simps [simp del]

text \<open>
  \<^verbatim>\<open>rlp_encode_list\<close>: argument checks, the first loop, the second loop, the width of
  the header, the capacity check, the shift, the header.
\<close>

definition rlp_encode_list :: "mem \<Rightarrow> nat \<Rightarrow> nat \<Rightarrow> RlpElement_t list option \<Rightarrow> (int \<times> mem) option" where
  "rlp_encode_list m rlpEncodedOutput rlpEncodedOutputLen rlpElementsArr =
     (case rlpElementsArr of
        None \<Rightarrow> Some (ERR_RLP_EBADARG, m)
      | Some es \<Rightarrow>
        if rlpEncodedOutput = 0 \<or> rlpEncodedOutputLen = 0 then Some (ERR_RLP_EBADARG, m)
        else
          (case preflight_loop rlpEncodedOutput rlpEncodedOutputLen rlpEncodedOutputLen es of
             Some err \<Rightarrow> Some (err, m)
           | None \<Rightarrow>
             let rlpOut = rlpEncodedOutput in
             (case encode_loop m rlpOut rlpEncodedOutputLen 0 es of
                None \<Rightarrow> None
              | Some (Inl ret, m') \<Rightarrow> Some (ret, m')
              | Some (Inr rlpEncodedLen, m') \<Rightarrow>
                let cnt = listHdrByteCnt_loop (c_int rlpEncodedLen) 0;
                    listHdrByteCnt =
                      (if rlpEncodedLen > RLP_EXTENDED_LENGTH_THRESHOLD then (cnt + 1) mod 256 else cnt)
                in
                if size_t (listHdrByteCnt + rlpEncodedLen) > rlpEncodedOutputLen
                then Some (ERR_RLP_ENOMEM, m')
                else
                  let m1 = shift_loop m' rlpOut listHdrByteCnt
                             (c_int (size_t (listHdrByteCnt + rlpEncodedLen)));
                      m2 = (if rlpEncodedLen > RLP_EXTENDED_LENGTH_THRESHOLD then
                              (header_loop m1 rlpOut listHdrByteCnt rlpEncodedLen 0)
                                (rlpOut := word_of_nat (RLP_OFFSET_LIST_LONG + (listHdrByteCnt - 1)))
                            else m1(rlpOut := word_of_nat (RLP_OFFSET_LIST_SHORT + rlpEncodedLen)))
                  in Some (c_int (size_t (rlpEncodedLen + listHdrByteCnt)), m2))))"

section \<open>The wire format, as the specification words it\<close>

text \<open>
  These definitions follow the specification, not the source; the theorems compare the
  source with them.

  The minimal number of bytes that represent a length in big-endian with no leading
  zero, and the big-endian encoding of a number on \<open>k\<close> bytes.
\<close>

fun bytes_needed :: "nat \<Rightarrow> nat" where
  "bytes_needed n = (if n = 0 then 0 else Suc (bytes_needed (n div 256)))"

declare bytes_needed.simps [simp del]

definition be_bytes :: "nat \<Rightarrow> nat \<Rightarrow> byte list" where
  "be_bytes k n = map (\<lambda>j. word_of_nat (n div 256 ^ (k - 1 - j))) [0 ..< k]"

text \<open>
  The canonical payload of an element: the bytes of a byte string as they are, the
  bytes of an integer from the first non-zero byte on.
\<close>

definition canonical_payload :: "mem \<Rightarrow> RlpElement_t \<Rightarrow> byte list" where
  "canonical_payload m e =
     (if RLP_TYPE_IS_INTEGER_TYPE (type e)
      then dropWhile (\<lambda>b. b = 0) (read_bytes m (buff e) (len e))
      else read_bytes m (buff e) (len e))"

text \<open>The encoding of an item with a given canonical payload (section 4.2).\<close>

definition spec_encode_item :: "byte list \<Rightarrow> byte list" where
  "spec_encode_item p =
     (if length p = 0 then [0x80]
      else if length p = 1 \<and> hd p < 0x80 then p
      else if length p \<le> 55 then word_of_nat (0x80 + length p) # p
      else word_of_nat (0xB7 + bytes_needed (length p)) #
           be_bytes (bytes_needed (length p)) (length p) @ p)"

text \<open>The header of a list whose children take \<open>n\<close> bytes in total (section 4.3).\<close>

definition spec_list_header :: "nat \<Rightarrow> byte list" where
  "spec_list_header n =
     (if n \<le> 55 then [word_of_nat (0xC0 + n)]
      else word_of_nat (0xF7 + bytes_needed n) # be_bytes (bytes_needed n) n)"

text \<open>
  The payload of a list is the concatenation of the encodings of its elements, in order;
  the encoding of the list is the header for the length of that payload, then the payload.
\<close>

definition spec_list_payload :: "mem \<Rightarrow> RlpElement_t list \<Rightarrow> byte list" where
  "spec_list_payload m es = concat (map (\<lambda>e. spec_encode_item (canonical_payload m e)) es)"

definition spec_encode_list :: "mem \<Rightarrow> RlpElement_t list \<Rightarrow> byte list" where
  "spec_encode_list m es =
     spec_list_header (length (spec_list_payload m es)) @ spec_list_payload m es"

text \<open>
  The lower bound of the pre-flight pass for the space that a sequence of elements takes:
  the declared length plus one for each.
\<close>

definition space_needed :: "RlpElement_t list \<Rightarrow> nat" where
  "space_needed es = sum_list (map (\<lambda>e. len e + 1) es)"

text \<open>Two address ranges intersect when some address lies in both.\<close>

definition regions_intersect :: "nat \<Rightarrow> nat \<Rightarrow> nat \<Rightarrow> nat \<Rightarrow> bool" where
  "regions_intersect a sza b szb = (max a b < min (a + sza) (b + szb))"

section \<open>Auxiliary definitions\<close>

text \<open>
  The view \<^verbatim>\<open>(rlpElementBuff, rlpElementLen)\<close> that \<^verbatim>\<open>rlp_encode_element\<close> has of an
  element after the scan, and the negation of its first check.
\<close>

definition element_view :: "mem \<Rightarrow> RlpElement_t \<Rightarrow> nat \<times> nat" where
  "element_view m e =
     (if RLP_TYPE_IS_INTEGER_TYPE (type e)
      then scanZero_loop m (buff e) (len e) 0 (buff e, len e)
      else (buff e, len e))"

definition element_args_ok :: "nat \<Rightarrow> nat \<Rightarrow> RlpElement_t \<Rightarrow> bool" where
  "element_args_ok rlpEncodedOutput rlpEncodedOutputLen e =
     (rlpEncodedOutput \<noteq> 0 \<and> rlpEncodedOutputLen \<noteq> 0 \<and> type e \<noteq> RLP_TYPE_INVALID \<and>
      rlp_type_mem_check (len e) (type e))"

section \<open>Example data\<close>

text \<open>A store for the examples: the byte at address \<open>a\<close> is \<open>a mod 256\<close>.\<close>

definition example_store :: mem where
  "example_store = (\<lambda>a. word_of_nat a)"

text \<open>What a call returned and what it left at an address, when it returned.\<close>

definition returned :: "(int \<times> mem) option \<Rightarrow> int option" where
  "returned r = map_option fst r"

definition byte_after :: "(int \<times> mem) option \<Rightarrow> nat \<Rightarrow> byte option" where
  "byte_after r a = map_option (\<lambda>x. snd x a) r"

section \<open>Machine integers within their range\<close>

lemma size_t_id: "n < 2 ^ 64 \<Longrightarrow> size_t n = n"
  by (simp add: size_t_def)

lemma c_int_id: "n < 2 ^ 31 \<Longrightarrow> c_int n = int n"
  by (simp add: c_int_def)

lemma size_t_of_int_id: "0 \<le> i \<Longrightarrow> i < 2 ^ 64 \<Longrightarrow> size_t_of_int i = nat i"
  by (simp add: size_t_of_int_def)

section \<open>The length of a length\<close>

lemma lengthOfLength_loop_nonneg:
  "0 \<le> t \<Longrightarrow> lengthOfLength_loop t k = Some (k + bytes_needed (nat t))"
proof (induction "nat t" arbitrary: t k rule: less_induct)
  case less
  show ?case
  proof (cases "t = 0")
    case True
    then show ?thesis by (simp add: lengthOfLength_loop.simps bytes_needed.simps)
  next
    case False
    with less.prems have pos: "0 < t" by simp
    then have lt: "nat (t div 256) < nat t"
      by (simp add: zdiv_mono2 nat_less_iff pos_imp_zdiv_nonneg_iff)
    have nn: "0 \<le> t div 256" using pos by (simp add: pos_imp_zdiv_nonneg_iff)
    have "lengthOfLength_loop t k = lengthOfLength_loop (t div 256) (k + 1)"
      using False by (subst lengthOfLength_loop.simps) simp
    also have "\<dots> = Some (k + 1 + bytes_needed (nat (t div 256)))"
      using less.hyps [OF lt nn] .
    also have "nat (t div 256) = nat t div 256"
      using pos by (simp add: nat_div_distrib)
    finally have step: "lengthOfLength_loop t k = Some (k + 1 + bytes_needed (nat t div 256))" .
    have "bytes_needed (nat t) = Suc (bytes_needed (nat t div 256))"
      using pos by (subst bytes_needed.simps) simp
    with step show ?thesis by simp
  qed
qed

text \<open>\<open>bytes_needed n\<close> is the least \<open>k\<close> with \<open>n < 256 ^ k\<close>.\<close>

lemma bytes_needed_le_iff: "bytes_needed n \<le> k \<longleftrightarrow> n < 256 ^ k"
proof (induction k arbitrary: n)
  case 0
  then show ?case by (subst bytes_needed.simps) simp
next
  case (Suc k)
  have "n div 256 < 256 ^ k \<longleftrightarrow> n < 256 ^ Suc k"
    by (simp add: less_mult_imp_div_less div_less_iff_less_mult mult.commute)
  with Suc [of "n div 256"] show ?case
    by (subst bytes_needed.simps) auto
qed

section \<open>Reading the store\<close>

lemma read_bytes_length [simp]: "length (read_bytes m a n) = n"
  by (simp add: read_bytes_def)

lemma read_bytes_nth [simp]: "i < n \<Longrightarrow> read_bytes m a n ! i = m (a + i)"
  by (simp add: read_bytes_def)

lemma read_bytes_0 [simp]: "read_bytes m a 0 = []"
  by (simp add: read_bytes_def)

lemma read_bytes_Suc: "read_bytes m a (Suc n) = m a # read_bytes m (Suc a) n"
  by (simp add: read_bytes_def upt_rec)

lemma read_bytes_append: "read_bytes m a (k + n) = read_bytes m a k @ read_bytes m (a + k) n"
  by (rule nth_equalityI) (auto simp: nth_append add.assoc)

lemma read_bytes_cong:
  "(\<And>i. i < n \<Longrightarrow> m (a + i) = m' (a' + i)) \<Longrightarrow> read_bytes m a n = read_bytes m' a' n"
  by (rule nth_equalityI) auto

section \<open>The loops of the element encoder\<close>

lemma scanZero_loop_spec:
  "i < n \<Longrightarrow> scanZero_loop m b n i (b, n) = (b', L) \<Longrightarrow>
   read_bytes m b' L = dropWhile (\<lambda>x. x = 0) (read_bytes m (b + i) (n - i)) \<and>
   L \<le> n - i \<and> (0 < L \<longrightarrow> b' + L = b + n \<and> b + i \<le> b')"
proof (induction "n - i" arbitrary: i)
  case 0
  then show ?case by simp
next
  case (Suc k)
  have split: "read_bytes m (b + i) (n - i) = m (b + i) # read_bytes m (b + Suc i) (n - Suc i)"
    using Suc.prems(1) read_bytes_Suc [of m "b + i" "n - Suc i"] by (simp add: Suc_diff_Suc)
  show ?case
  proof (cases "m (b + i) = 0")
    case False
    with Suc.prems have "b' = b + i" "L = n - i" by (simp_all add: scanZero_loop.simps [of m b n i])
    with False split show ?thesis by simp
  next
    case z: True
    show ?thesis
    proof (cases "i = n - 1")
      case True
      have "scanZero_loop m b n i (b, n) = scanZero_loop m b n (i + 1) (b, 0)"
        using z True Suc.prems(1) by (subst scanZero_loop.simps) simp
      also have "i + 1 = n" using True Suc.prems(1) by simp
      also have "scanZero_loop m b n n (b, 0) = (b, 0)"
        by (subst scanZero_loop.simps) simp
      finally have "b' = b" "L = 0" using Suc.prems(2) by simp_all
      with True z split Suc.prems(1) show ?thesis by simp
    next
      case False
      with Suc.prems(1) have lt: "Suc i < n" by simp
      from z False Suc.prems have rec: "scanZero_loop m b n (Suc i) (b, n) = (b', L)"
        by (simp add: scanZero_loop.simps [of m b n i])
      from Suc.hyps(2) have k: "k = n - Suc i" by simp
      from Suc.hyps(1) [OF k lt rec] z split show ?thesis by auto
    qed
  qed
qed

lemma write_length_loop_eq:
  "write_length_loop m out (int k) t =
     (\<lambda>a. if out < a \<and> a \<le> out + k then word_of_int (t div 256 ^ (out + k - a)) else m a)"
proof (induction k arbitrary: m t)
  case 0
  show ?case by (subst write_length_loop.simps) (auto simp: fun_eq_iff)
next
  case (Suc k)
  have "write_length_loop m out (int (Suc k)) t =
        write_length_loop (m(out + Suc k := word_of_int t)) out (int k) (t div 256)"
    by (subst write_length_loop.simps) (simp add: nat_add_distrib)
  also note Suc.IH
  finally have eq: "write_length_loop m out (int (Suc k)) t =
      (\<lambda>a. if out < a \<and> a \<le> out + k then word_of_int (t div 256 div 256 ^ (out + k - a))
           else (m(out + Suc k := word_of_int t)) a)" .
  have d: "t div 256 div 256 ^ j = t div 256 ^ Suc j" for j
    by (simp add: zdiv_zmult2_eq)
  show ?case
    unfolding eq d by (auto simp: fun_eq_iff Suc_diff_le)
qed

section \<open>One element against the wire format\<close>

lemma no_overlap_iff: "\<not> rlp_memoverlap a sza b szb \<longleftrightarrow> a + sza < b \<or> b + szb < a"
  by (auto simp: rlp_memoverlap_def)

lemma element_view_spec:
  assumes "element_view m e = (b', L)"
  shows "read_bytes m b' L = canonical_payload m e \<and> L \<le> len e \<and>
         (0 < L \<longrightarrow> buff e \<le> b' \<and> b' + L = buff e + len e)"
proof (cases "RLP_TYPE_IS_INTEGER_TYPE (type e) \<and> 0 < len e")
  case True
  with assms have "scanZero_loop m (buff e) (len e) 0 (buff e, len e) = (b', L)"
    by (simp add: element_view_def)
  from scanZero_loop_spec [OF _ this] True show ?thesis
    by (simp add: canonical_payload_def)
next
  case False
  show ?thesis
  proof (cases "RLP_TYPE_IS_INTEGER_TYPE (type e)")
    case True
    with False have z: "len e = 0" by simp
    with True assms have "b' = buff e" "L = 0"
      by (simp_all add: element_view_def scanZero_loop.simps [of m "buff e" 0 0])
    with z True show ?thesis by (simp add: canonical_payload_def)
  next
    case False
    with assms show ?thesis by (auto simp: element_view_def canonical_payload_def)
  qed
qed

lemma rlp_encode_element_checked:
  assumes "element_args_ok out cap e" "len e + 1 \<le> cap" "len e + 1 < 2 ^ 64"
    "\<not> rlp_memoverlap out cap (buff e) (len e)" "element_view m e = (b', L)"
  shows "rlp_encode_element m out cap (Some e) =
     (if L = 0 then Some (1, m(out := 0x80))
      else if L = 1 \<and> unat (m b') < 0x80 then Some (1, m(out := m b'))
      else if L \<le> 55 then Some (int (L + 1), memcpy (m(out := word_of_nat (0x80 + L))) (out + 1) b' L)
      else (case lengthOfLength_loop (c_int L) 0 of
               None \<Rightarrow> None
             | Some lengthOfLength \<Rightarrow>
               if cap < size_t (L + lengthOfLength + 1)
               then Some (ERR_RLP_ENOMEM, m)
               else
                 Some (c_int (size_t (L + lengthOfLength + 1)), 
                    memcpy (write_length_loop (m(out := word_of_nat (0xB7 + lengthOfLength))) out (c_int lengthOfLength) (c_int L)) (out + 1 + lengthOfLength) b'
                            (size_t (L + lengthOfLength + 1)))))"
  using assms
  by (auto simp add: rlp_encode_element_def element_args_ok_def size_t_id c_int_id Let_def element_view_def [symmetric]
     RLP_OFFSET_ITEM_SHORT_def RLP_OFFSET_ITEM_LONG_def RLP_EXTENDED_LENGTH_THRESHOLD_def split: option.splits)

lemma be_bytes_length [simp]: "length (be_bytes k n) = k"
  by (simp add: be_bytes_def)

lemma be_bytes_nth [simp]: "j < k \<Longrightarrow> be_bytes k n ! j = word_of_nat (n div 256 ^ (k - 1 - j))"
  by (simp add: be_bytes_def)

lemma short_form_bytes:
  assumes "\<And>j. j < L \<Longrightarrow> b' + j \<noteq> out"
  shows "read_bytes (memcpy (m(out := h)) (out + 1) b' L) out (L + 1) = h # read_bytes m b' L"
proof (rule nth_equalityI)
  show "length (read_bytes (memcpy (m(out := h)) (out + 1) b' L) out (L + 1)) = length (h # read_bytes m b' L)"
    by simp
next
  fix i assume "i < length (read_bytes (memcpy (m(out := h)) (out + 1) b' L) out (L + 1))"
  then have i: "i < L + 1" by simp
  show "read_bytes (memcpy (m(out := h)) (out + 1) b' L) out (L + 1) ! i = (h # read_bytes m b' L) ! i"
  proof (cases i)
    case 0
    then show ?thesis by (simp add: memcpy_def)
  next
    case (Suc j)
    with i have "j < L" by simp
    with Suc assms [of j] show ?thesis by (simp add: memcpy_def)
  qed
qed

lemma word_of_int_div_pow: "(word_of_int (int L div 256 ^ x) :: byte) = word_of_nat (L div 256 ^ x)"
proof -
  have "int L div 256 ^ x = int (L div 256 ^ x)"
    by (simp add: zdiv_int)
  then show ?thesis by simp
qed

lemma long_form_bytes:
  assumes src: "\<And>j. j < L \<Longrightarrow> b' + j < out \<or> out + K < b' + j" and n: "L \<le> n"
  shows "read_bytes (memcpy (write_length_loop (m(out := h)) out (int K) (int L)) (out + 1 + K) b' n)
           out (1 + K + L) = h # be_bytes K L @ read_bytes m b' L" (is "read_bytes ?m3 _ _ = ?r")
proof (rule nth_equalityI)
  show "length (read_bytes ?m3 out (1 + K + L)) = length ?r" by simp
next
  fix i assume "i < length (read_bytes ?m3 out (1 + K + L))"
  then have i: "i < 1 + K + L" by simp
  consider "i = 0" | "1 \<le> i" "i \<le> K" | "K < i" by linarith
  then show "read_bytes ?m3 out (1 + K + L) ! i = ?r ! i"
  proof cases
    case 1
    then show ?thesis by (simp add: memcpy_def write_length_loop_eq)
  next
    case 2
    then obtain j where j: "i = Suc j" "j < K" by (cases i) auto
    then show ?thesis
      using i by (simp add: memcpy_def write_length_loop_eq nth_append word_of_int_div_pow)
  next
    case 3
    define j where "j = i - 1 - K"
    with 3 i have j: "i = 1 + K + j" "j < L" by simp_all
    from src [OF j(2)] have "?m3 (out + i) = m (b' + j)"
      using j n by (auto simp add: memcpy_def write_length_loop_eq)
    then show ?thesis using j i by (simp add: nth_append)
  qed
qed

lemma byte_less_128: "(w :: byte) < 0x80 \<longleftrightarrow> unat w < 128"
  by (simp add: word_less_nat_alt)

lemma bytes_needed_small: "L < 2 ^ 31 \<Longrightarrow> bytes_needed L \<le> 4"
  by (simp add: bytes_needed_le_iff)

lemma rlp_encode_element_spec:
  assumes ok: "element_args_ok out cap e" and cap: "len e + 1 \<le> cap" and small: "cap < 2 ^ 31"
    and ov: "\<not> rlp_memoverlap out cap (buff e) (len e)"
    and long: "55 < length (canonical_payload m e) \<Longrightarrow>
               length (canonical_payload m e) + bytes_needed (length (canonical_payload m e)) + 1 \<le> cap"
  shows "\<exists>m'. rlp_encode_element m out cap (Some e) =
                 Some (int (length (spec_encode_item (canonical_payload m e))), m') \<and>
              read_bytes m' out (length (spec_encode_item (canonical_payload m e))) =
                 spec_encode_item (canonical_payload m e) \<and>
              (\<forall>a. a < out \<or>
                   out + length (spec_encode_item (canonical_payload m e)) +
                     (if 55 < length (canonical_payload m e)
                      then bytes_needed (length (canonical_payload m e)) + 1 else 0) \<le> a \<longrightarrow>
                   m' a = m a)"
proof -
  define p where "p = canonical_payload m e"
  obtain b' L where view: "element_view m e = (b', L)" by (cases "element_view m e")
  from element_view_spec [OF view]
  have p: "read_bytes m b' L = p" and L: "L \<le> len e"
    and pos: "0 < L \<Longrightarrow> buff e \<le> b' \<and> b' + L = buff e + len e"
    by (simp_all add: p_def)
  from p have lp: "length p = L" by auto
  from small cap have small64: "len e + 1 < 2 ^ 64" by simp
  note code = rlp_encode_element_checked [OF ok cap small64 ov view, of ]
  from ov have dis: "out + cap < buff e \<or> buff e + len e < out" by (simp add: no_overlap_iff)
  have src: "b' + j < out \<or> out + cap < b' + j" if "j < L" for j
    using that pos dis by auto
  consider "L = 0" | "L = 1" "unat (m b') < 128" | "L \<noteq> 0" "\<not> (L = 1 \<and> unat (m b') < 128)" "L \<le> 55"
    | "55 < L" by linarith
  then have "\<exists>m'. rlp_encode_element m out cap (Some e) = Some (int (length (spec_encode_item p)), m') \<and>
              read_bytes m' out (length (spec_encode_item p)) = spec_encode_item p \<and>
              (\<forall>a. a < out \<or> out + length (spec_encode_item p) +
                     (if 55 < length p then bytes_needed (length p) + 1 else 0) \<le> a \<longrightarrow> m' a = m a)"
  proof cases
    case 1
    with lp have "spec_encode_item p = [0x80]" by (simp add: spec_encode_item_def)
    with 1 lp code show ?thesis by (simp add: read_bytes_Suc)
  next
    case 2
    have "read_bytes m b' (Suc 0) = [m b']" by (simp add: read_bytes_Suc)
    with 2 p have pe: "p = [m b']" by simp
    with 2 have "spec_encode_item p = [m b']" by (simp add: spec_encode_item_def byte_less_128)
    with 2 lp code show ?thesis by (simp add: read_bytes_Suc)
  next
    case 3
    have hd: "hd p = m b'" using 3(1) p by (cases L) (auto simp: read_bytes_Suc)
    from 3 lp hd have enc: "spec_encode_item p = word_of_nat (0x80 + L) # p"
      by (auto simp add: spec_encode_item_def byte_less_128)
    have "b' + j \<noteq> out" if "j < L" for j using src [OF that] by auto
    from short_form_bytes [of L b' out m "word_of_nat (0x80 + L)", OF this]
    have "read_bytes (memcpy (m(out := word_of_nat (0x80 + L))) (out + 1) b' L) out (L + 1) =
          word_of_nat (0x80 + L) # p" using p by simp
    with 3 lp code enc show ?thesis by (auto simp: memcpy_def)
  next
    case 4
    define K where "K = bytes_needed L"
    from L small cap have L31: "L < 2 ^ 31" by simp
    then have K4: "K \<le> 4" unfolding K_def by (rule bytes_needed_small)
    from 4 lp have enc: "spec_encode_item p = word_of_nat (0xB7 + K) # be_bytes K L @ p"
      by (simp add: spec_encode_item_def K_def)
    from L31 have lol: "lengthOfLength_loop (c_int L) 0 = Some K"
      by (simp add: c_int_id lengthOfLength_loop_nonneg K_def)
    from long 4 lp have fits: "L + K + 1 \<le> cap" by (simp add: p_def K_def)
    have st: "size_t (L + K + 1) = L + K + 1" using L31 K4 by (simp add: size_t_id)
    have ci: "c_int (L + K + 1) = int (L + K + 1)" "c_int K = int K" "c_int L = int L"
      using L31 K4 4 fits small by (simp_all add: c_int_id)
    have src': "b' + j < out \<or> out + K < b' + j" if "j < L" for j
      using src [OF that] fits by auto
    from long_form_bytes [of L b' out K "L + K + 1" m "word_of_nat (0xB7 + K)", OF src']
    have rd: "read_bytes (memcpy (write_length_loop (m(out := word_of_nat (0xB7 + K))) out (int K) (int L))
                 (out + 1 + K) b' (L + K + 1)) out (1 + K + L) = word_of_nat (0xB7 + K) # be_bytes K L @ p"
      using p by simp
    have fr: "memcpy (write_length_loop (m(out := word_of_nat (0xB7 + K))) out (int K) (int L))
                 (out + 1 + K) b' (L + K + 1) a = m a" if "a < out \<or> out + (1 + K + L) + (K + 1) \<le> a" for a
      using that by (auto simp: memcpy_def write_length_loop_eq)
    from 4 lp code lol fits st ci enc rd fr show ?thesis
      by (simp add: K_def [symmetric] add.commute add.left_commute)
  qed
  then show ?thesis unfolding p_def .
qed

lemma integer_type_len:
  "RLP_TYPE_IS_INTEGER_TYPE t \<Longrightarrow> rlp_type_mem_check n t \<Longrightarrow> 0 < n \<and> n \<le> 128"
  by (cases t) (simp_all add: rlp_type_mem_check_def size_t_of_int_def)

lemma canonical_payload_length_le: "length (canonical_payload m e) \<le> len e"
  using length_dropWhile_le [of "\<lambda>b. b = 0" "read_bytes m (buff e) (len e)"]
  by (simp add: canonical_payload_def)

lemma canonical_payload_bytes: "\<not> RLP_TYPE_IS_INTEGER_TYPE (type e) \<Longrightarrow> length (canonical_payload m e) = len e"
  by (simp add: canonical_payload_def)

section \<open>Integers and the empty string\<close>

text \<open>
  The view that the encoder has of an integer element is the suffix of its bytes from the
  first non-zero byte on. An integer whose bytes are all zero and an empty byte string
  both come out as the single byte \<open>0x80\<close>.
\<close>

lemma element_view_integer:
  assumes "RLP_TYPE_IS_INTEGER_TYPE (type e)" "element_view m e = (b', L)"
  shows "read_bytes m b' L = dropWhile (\<lambda>b. b = 0) (read_bytes m (buff e) (len e))"
  using element_view_spec [OF assms(2)] assms(1) by (simp add: canonical_payload_def)

lemma rlp_encode_element_zero_integer:
  assumes ok: "element_args_ok out cap e" and cap: "len e + 1 \<le> cap"
    and ov: "\<not> rlp_memoverlap out cap (buff e) (len e)"
    and int: "RLP_TYPE_IS_INTEGER_TYPE (type e)"
    and zero: "\<forall>i<len e. m (buff e + i) = 0"
  shows "rlp_encode_element m out cap (Some e) = Some (1, m(out := 0x80))"
proof -
  obtain b' L where view: "element_view m e = (b', L)" by (cases "element_view m e")
  from zero have "\<forall>x\<in>set (read_bytes m (buff e) (len e)). x = 0"
    by (auto simp: in_set_conv_nth)
  then have "dropWhile (\<lambda>b. b = 0) (read_bytes m (buff e) (len e)) = []"
    by simp
  with element_view_integer [OF int view] have "length (read_bytes m b' L) = 0" by simp
  then have L: "L = 0" by simp
  from ok int integer_type_len [of "type e" "len e"] have "len e + 1 < 2 ^ 64"
    by (simp add: element_args_ok_def)
  from rlp_encode_element_checked [OF ok cap this ov view] L show ?thesis by simp
qed

lemma rlp_encode_element_empty_string:
  assumes ok: "element_args_ok out cap e" and ov: "\<not> rlp_memoverlap out cap (buff e) 0"
    and str: "type e = RLP_TYPE_BYTE_ARRAY" and empty: "len e = 0"
  shows "rlp_encode_element m out cap (Some e) = Some (1, m(out := 0x80))"
proof -
  from str empty have view: "element_view m e = (buff e, 0)" by (simp add: element_view_def)
  from ok empty have cap: "len e + 1 \<le> cap" by (simp add: element_args_ok_def)
  from empty have small: "len e + 1 < 2 ^ 64" by simp
  from ov empty have ov': "\<not> rlp_memoverlap out cap (buff e) (len e)" by simp
  from rlp_encode_element_checked [OF ok cap small ov' view] show ?thesis by simp
qed

section \<open>The loops of the list encoder\<close>

lemma listHdrByteCnt_loop_nonpos: "t \<le> 0 \<Longrightarrow> listHdrByteCnt_loop t k = k"
  by (subst listHdrByteCnt_loop.simps) simp

lemma listHdrByteCnt_loop_eq:
  "0 \<le> t \<Longrightarrow> k + bytes_needed (nat t) < 256 \<Longrightarrow>
   listHdrByteCnt_loop t k = k + bytes_needed (nat t)"
proof (induction "nat t" arbitrary: t k rule: less_induct)
  case less
  show ?case
  proof (cases "t = 0")
    case True
    then show ?thesis by (simp add: listHdrByteCnt_loop_nonpos bytes_needed.simps)
  next
    case False
    with less.prems have pos: "0 < t" by simp
    then have lt: "nat (t div 256) < nat t"
      by (simp add: zdiv_mono2 nat_less_iff pos_imp_zdiv_nonneg_iff)
    have nn: "0 \<le> t div 256" using pos by (simp add: pos_imp_zdiv_nonneg_iff)
    have nd: "nat (t div 256) = nat t div 256"
      using pos by (simp add: nat_div_distrib)
    have bn: "bytes_needed (nat t) = Suc (bytes_needed (nat t div 256))"
      using pos by (subst bytes_needed.simps) simp
    have "listHdrByteCnt_loop t k = listHdrByteCnt_loop (t div 256) ((k + 1) mod 256)"
      using pos by (subst listHdrByteCnt_loop.simps) simp
    also have "(k + 1) mod 256 = k + 1" using less.prems(2) bn by simp
    also have "listHdrByteCnt_loop (t div 256) (k + 1) = k + 1 + bytes_needed (nat (t div 256))"
      using less.hyps [OF lt nn, of "k + 1"] less.prems(2) bn nd by simp
    finally show ?thesis using bn nd by simp
  qed
qed

lemma shift_loop_eq:
  "shift_loop m out h (int (h + k)) =
     (\<lambda>a. if out + h \<le> a \<and> a \<le> out + h + k then m (a - h) else m a)"
proof (induction k arbitrary: m)
  case 0
  have "shift_loop m out h (int (h + 0)) = shift_loop (m(out + h := m out)) out h (int h - 1)"
    by (subst shift_loop.simps) simp
  also have "\<dots> = m(out + h := m out)"
    by (subst shift_loop.simps) simp
  finally show ?case by (auto simp: fun_eq_iff)
next
  case (Suc k)
  have "shift_loop m out h (int (h + Suc k)) =
        shift_loop (m(out + (h + Suc k) := m (out + Suc k))) out h (int (h + k))"
    by (subst shift_loop.simps) (simp add: nat_add_distrib)
  also note Suc.IH
  finally show ?case by (auto simp: fun_eq_iff)
qed

lemma header_loop_eq:
  "i \<le> h \<Longrightarrow> header_loop m out h n i =
     (\<lambda>a. if out \<le> a \<and> a + i < out + h then word_of_nat (n div 2 ^ (8 * (h - 1 - (a - out)))) else m a)"
proof (induction "h - i" arbitrary: i m)
  case 0
  then show ?case by (subst header_loop.simps) (auto simp: fun_eq_iff)
next
  case (Suc d)
  then have lt: "i < h" and d: "d = h - (i + 1)" and le: "i + 1 \<le> h" by simp_all
  have "header_loop m out h n i =
        header_loop (m(out + ((h - 1) - i) := word_of_nat (n div 2 ^ (8 * i)))) out h n (i + 1)"
    using lt by (subst header_loop.simps) simp
  also note Suc.hyps(1) [OF d le]
  finally show ?case using lt
    by (auto simp: fun_eq_iff)
qed

section \<open>The outcomes of encoding one element\<close>

lemma regions_intersect_iff:
  "regions_intersect a sza b szb \<longleftrightarrow> (\<exists>x. a \<le> x \<and> x < a + sza \<and> b \<le> x \<and> x < b + szb)"
proof
  assume "regions_intersect a sza b szb"
  then have "a \<le> max a b \<and> max a b < a + sza \<and> b \<le> max a b \<and> max a b < b + szb"
    by (auto simp: regions_intersect_def)
  then show "\<exists>x. a \<le> x \<and> x < a + sza \<and> b \<le> x \<and> x < b + szb" ..
next
  assume "\<exists>x. a \<le> x \<and> x < a + sza \<and> b \<le> x \<and> x < b + szb"
  then show "regions_intersect a sza b szb"
    by (auto simp: regions_intersect_def)
qed

lemma regions_intersect_overlap:
  "regions_intersect a sza b szb \<Longrightarrow> rlp_memoverlap a sza b szb"
  by (auto simp: regions_intersect_def rlp_memoverlap_def)

lemma c_int_not_error:
  "n < 2 ^ 31 + 5 \<Longrightarrow> c_int n \<notin> {ERR_RLP_EUNKNOWN, ERR_RLP_EBADARG, ERR_RLP_EILLEGALMEM, ERR_RLP_ENOMEM}"
  by (auto simp: c_int_def ERR_RLP_EUNKNOWN_def ERR_RLP_EBADARG_def ERR_RLP_EILLEGALMEM_def
      ERR_RLP_ENOMEM_def split: if_splits)

lemma rlp_encode_element_cases [consumes 1, case_names badarg nomem overlap nomem_long ok]:
  assumes small: "len e < 2 ^ 31"
  obtains
    "\<not> element_args_ok out cap e"
    "rlp_encode_element m out cap (Some e) = Some (ERR_RLP_EBADARG, m)"
  | "element_args_ok out cap e" "cap < len e + 1"
    "rlp_encode_element m out cap (Some e) = Some (ERR_RLP_ENOMEM, m)"
  | "element_args_ok out cap e" "len e + 1 \<le> cap" "rlp_memoverlap out cap (buff e) (len e)"
    "rlp_encode_element m out cap (Some e) = Some (ERR_RLP_EILLEGALMEM, m)"
  | "element_args_ok out cap e" "len e + 1 \<le> cap" "\<not> rlp_memoverlap out cap (buff e) (len e)"
    "55 < length (canonical_payload m e)"
    "cap < length (canonical_payload m e) + bytes_needed (length (canonical_payload m e)) + 1"
    "rlp_encode_element m out cap (Some e) = Some (ERR_RLP_ENOMEM, m)"
  | r m' where "element_args_ok out cap e" "len e + 1 \<le> cap"
    "\<not> rlp_memoverlap out cap (buff e) (len e)"
    "55 < length (canonical_payload m e) \<Longrightarrow>
       length (canonical_payload m e) + bytes_needed (length (canonical_payload m e)) + 1 \<le> cap"
    "rlp_encode_element m out cap (Some e) = Some (r, m')"
    "r = c_int (length (spec_encode_item (canonical_payload m e)))"
    "r \<notin> {ERR_RLP_EUNKNOWN, ERR_RLP_EBADARG, ERR_RLP_EILLEGALMEM, ERR_RLP_ENOMEM}"
proof -
  from small have st: "size_t (Suc (len e)) = Suc (len e)" by (simp add: size_t_id)
  consider "\<not> element_args_ok out cap e" | "element_args_ok out cap e" "cap < len e + 1"
    | "element_args_ok out cap e" "len e + 1 \<le> cap" "rlp_memoverlap out cap (buff e) (len e)"
    | "element_args_ok out cap e" "len e + 1 \<le> cap" "\<not> rlp_memoverlap out cap (buff e) (len e)"
    by linarith
  then show thesis
  proof cases
    case 1
    then have "rlp_encode_element m out cap (Some e) = Some (ERR_RLP_EBADARG, m)"
      by (simp add: rlp_encode_element_def element_args_ok_def)
    with 1 that(1) show thesis by blast
  next
    case 2
    then have "rlp_encode_element m out cap (Some e) = Some (ERR_RLP_ENOMEM, m)"
      by (simp add: rlp_encode_element_def element_args_ok_def st)
    with 2 that(2) show thesis by blast
  next
    case 3
    then have "rlp_encode_element m out cap (Some e) = Some (ERR_RLP_EILLEGALMEM, m)"
      by (simp add: rlp_encode_element_def element_args_ok_def st)
    with 3 that(3) show thesis by blast
  next
    case 4
    define p where "p = canonical_payload m e"
    obtain b' L where view: "element_view m e = (b', L)" by (cases "element_view m e")
    from element_view_spec [OF view]
    have p: "read_bytes m b' L = p" and L: "L \<le> len e" by (simp_all add: p_def)
    from p have lp: "length p = L" by auto
    have hd: "hd p = m b'" if "0 < L" using that p by (cases L) (auto simp: read_bytes_Suc)
    from small have small64: "len e + 1 < 2 ^ 64" by simp
    note code = rlp_encode_element_checked [OF 4(1,2) small64 4(3) view]
    define K where "K = bytes_needed L"
    from L small have L31: "L < 2 ^ 31" by simp
    then have K4: "K \<le> 4" unfolding K_def by (rule bytes_needed_small)
    from L31 have lol: "lengthOfLength_loop (c_int L) 0 = Some K"
      by (simp add: c_int_id lengthOfLength_loop_nonneg K_def)
    have st': "size_t (L + K + 1) = L + K + 1" using L31 K4 by (simp add: size_t_id)
    show thesis
    proof (cases "55 < L \<and> cap < L + K + 1")
      case True
      with code lol st' have "rlp_encode_element m out cap (Some e) = Some (ERR_RLP_ENOMEM, m)"
        by simp
      with True 4 that(4) lp show thesis unfolding p_def K_def by simp
    next
      case False
      have len: "length (spec_encode_item p) = (if L = 0 then 1 else if L = 1 \<and> unat (m b') < 128 then 1
                   else if L \<le> 55 then L + 1 else L + K + 1)"
        using lp hd by (auto simp: spec_encode_item_def K_def byte_less_128)
      have "\<exists>m'. rlp_encode_element m out cap (Some e) = Some (c_int (length (spec_encode_item p)), m')"
        using code lol st' False unfolding len by (auto simp: c_int_def)
      then obtain m' where r: "rlp_encode_element m out cap (Some e) =
          Some (c_int (length (spec_encode_item p)), m')" ..
      have "length (spec_encode_item p) < 2 ^ 31 + 5" using L31 K4 unfolding len by auto
      from c_int_not_error [OF this] r False 4 that(5) [of "c_int (length (spec_encode_item p))" m'] lp
      show thesis unfolding p_def K_def by auto
    qed
  qed
qed

section \<open>The short forms of an item\<close>

lemma example_payload_int_zero: "canonical_payload example_store \<lparr>type = RLP_TYPE_INT8, len = 1, buff = 2048\<rparr> = []"
  by (simp add: canonical_payload_def read_bytes_def example_store_def)

lemma example_payload_single: "canonical_payload example_store \<lparr>type = RLP_TYPE_BYTE_ARRAY, len = 1, buff = 2053\<rparr> = [5]"
  by (simp add: canonical_payload_def read_bytes_def example_store_def)

lemma example_payload_three: "canonical_payload example_store \<lparr>type = RLP_TYPE_BYTE_ARRAY, len = 3, buff = 2300\<rparr> = [252, 253, 254]"
  by (simp add: canonical_payload_def read_bytes_def example_store_def)

lemma example_args_ok: "element_args_ok 1000 16 \<lparr>type = RLP_TYPE_INT8, len = 1, buff = 2048\<rparr>"
     "element_args_ok 1000 16 \<lparr>type = RLP_TYPE_BYTE_ARRAY, len = 1, buff = 2053\<rparr>"
     "element_args_ok 1000 16 \<lparr>type = RLP_TYPE_BYTE_ARRAY, len = 3, buff = 2300\<rparr>"
  by (simp_all add: element_args_ok_def rlp_type_mem_check_def size_t_of_int_def)

text \<open>
  Claim C6, as the source has it. Let the arguments of \<^verbatim>\<open>rlp_encode_element\<close> pass its
  checks: the pointers are not null, the tag is valid and fits the declared length, the
  capacity is at least the declared length plus one (not just the encoded size), and
  \<^verbatim>\<open>rlp_memoverlap\<close> reports no overlap. Then, with \<open>L\<close> the length of
  the canonical payload: for \<open>L = 0\<close> the call writes the single byte \<open>0x80\<close> and
  returns 1; for \<open>L = 1\<close> with a byte below \<open>0x80\<close> it writes that byte alone and returns 1,
  whatever the tag of the element; for every other \<open>L\<close> from 1 to 55 it writes the header
  byte \<open>0x80 + L\<close>, then the \<open>L\<close> payload bytes, returns \<open>L + 1\<close> and changes nothing
  outside these \<open>L + 1\<close> bytes.
\<close>

theorem rlp_encode_element_short_forms:
  assumes ok: "element_args_ok out cap e" and cap: "len e + 1 \<le> cap"
    and ov: "\<not> rlp_memoverlap out cap (buff e) (len e)"
  shows "(length (canonical_payload m e) = 0 \<longrightarrow>
            rlp_encode_element m out cap (Some e) = Some (1, m(out := 0x80))) \<and>
         (length (canonical_payload m e) = 1 \<and> hd (canonical_payload m e) < 0x80 \<longrightarrow>
            rlp_encode_element m out cap (Some e) = Some (1, m(out := hd (canonical_payload m e)))) \<and>
         (1 \<le> length (canonical_payload m e) \<and> length (canonical_payload m e) \<le> 55 \<and>
          \<not> (length (canonical_payload m e) = 1 \<and> hd (canonical_payload m e) < 0x80) \<longrightarrow>
            (\<exists>m'. rlp_encode_element m out cap (Some e) =
                     Some (int (length (canonical_payload m e) + 1), m') \<and>
                  m' out = word_of_nat (0x80 + length (canonical_payload m e)) \<and>
                  read_bytes m' (out + 1) (length (canonical_payload m e)) = canonical_payload m e \<and>
                  (\<forall>a. a < out \<or> out + length (canonical_payload m e) + 1 \<le> a \<longrightarrow> m' a = m a)))"
proof -
  define p where "p = canonical_payload m e"
  obtain b' L where view: "element_view m e = (b', L)" by (cases "element_view m e")
  from element_view_spec [OF view]
  have p: "read_bytes m b' L = p" and L: "L \<le> len e"
    and pos: "0 < L \<Longrightarrow> buff e \<le> b' \<and> b' + L = buff e + len e"
    by (simp_all add: p_def)
  from p have lp: "length p = L" by auto
  have hd: "hd p = m b'" if "0 < L" using that p by (cases L) (auto simp: read_bytes_Suc)
  from ov have dis: "out + cap < buff e \<or> buff e + len e < out" by (simp add: no_overlap_iff)
  have src: "b' + j \<noteq> out" if "j < L" for j
    using that pos dis by auto
  have code: "rlp_encode_element m out cap (Some e) =
     (if L = 0 then Some (1, m(out := 0x80))
      else if L = 1 \<and> unat (m b') < 0x80 then Some (1, m(out := m b'))
      else Some (int (L + 1), memcpy (m(out := word_of_nat (0x80 + L))) (out + 1) b' L))"
    if "L \<le> 55"
  proof -
    have "len e + 1 < 2 ^ 64"
    proof (cases "RLP_TYPE_IS_INTEGER_TYPE (type e)")
      case True
      with ok integer_type_len [of "type e" "len e"] show ?thesis
        by (simp add: element_args_ok_def)
    next
      case False
      with lp that show ?thesis by (simp add: p_def canonical_payload_bytes)
    qed
    from rlp_encode_element_checked [OF ok cap this ov view] that show ?thesis by simp
  qed
  have A: "rlp_encode_element m out cap (Some e) = Some (1, m(out := 0x80))" if "length p = 0"
    using that lp code by simp
  have B: "rlp_encode_element m out cap (Some e) = Some (1, m(out := hd p))"
    if "length p = 1" "hd p < 0x80"
    using that lp code hd by (simp add: byte_less_128)
  have C: "\<exists>m'. rlp_encode_element m out cap (Some e) = Some (int (length p + 1), m') \<and>
                  m' out = word_of_nat (0x80 + length p) \<and>
                  read_bytes m' (out + 1) (length p) = p \<and>
                  (\<forall>a. a < out \<or> out + length p + 1 \<le> a \<longrightarrow> m' a = m a)"
    if "1 \<le> length p" "length p \<le> 55" "\<not> (length p = 1 \<and> hd p < 0x80)"
  proof -
    let ?m' = "memcpy (m(out := word_of_nat (0x80 + L))) (out + 1) b' L"
    from that lp hd have c: "rlp_encode_element m out cap (Some e) = Some (int (L + 1), ?m')"
      using code by (auto simp: byte_less_128)
    have rd: "read_bytes ?m' (out + 1) L = read_bytes m b' L"
      by (rule read_bytes_cong) (use src in \<open>auto simp: memcpy_def\<close>)
    from c rd p lp show ?thesis by (auto simp: memcpy_def)
  qed
  from A B C show ?thesis unfolding p_def by blast
qed

theorem rlp_encode_element_short_forms_witness:
  "rlp_encode_element example_store 1000 16 (Some \<lparr>type = RLP_TYPE_INT8, len = 1, buff = 2048\<rparr>) =
     Some (1, example_store(1000 := 0x80)) \<and>
   rlp_encode_element example_store 1000 16 (Some \<lparr>type = RLP_TYPE_BYTE_ARRAY, len = 1, buff = 2053\<rparr>) =
     Some (1, example_store(1000 := 5)) \<and>
   (\<exists>m'. rlp_encode_element example_store 1000 16
            (Some \<lparr>type = RLP_TYPE_BYTE_ARRAY, len = 3, buff = 2300\<rparr>) = Some (4, m') \<and>
         m' 1000 = 0x83 \<and> read_bytes m' 1001 3 = [252, 253, 254])"
proof -
  let ?e1 = "\<lparr>type = RLP_TYPE_INT8, len = 1, buff = 2048\<rparr>"
  let ?e2 = "\<lparr>type = RLP_TYPE_BYTE_ARRAY, len = 1, buff = 2053\<rparr>"
  let ?e3 = "\<lparr>type = RLP_TYPE_BYTE_ARRAY, len = 3, buff = 2300\<rparr>"
  have c1: "len ?e1 + 1 \<le> 16" and c2: "len ?e2 + 1 \<le> 16" and c3: "len ?e3 + 1 \<le> 16"
    by simp_all
  have o1: "\<not> rlp_memoverlap 1000 16 (buff ?e1) (len ?e1)"
    and o2: "\<not> rlp_memoverlap 1000 16 (buff ?e2) (len ?e2)"
    and o3: "\<not> rlp_memoverlap 1000 16 (buff ?e3) (len ?e3)"
    by (simp_all add: rlp_memoverlap_def)
  note t1 = rlp_encode_element_short_forms [OF example_args_ok(1) c1 o1, of example_store, unfolded example_payload_int_zero]
  note t2 = rlp_encode_element_short_forms [OF example_args_ok(2) c2 o2, of example_store, unfolded example_payload_single]
  note t3 = rlp_encode_element_short_forms [OF example_args_ok(3) c3 o3, of example_store, unfolded example_payload_three]
  from t1 have a: "rlp_encode_element example_store 1000 16 (Some ?e1) =
     Some (1, example_store(1000 := 0x80))" by simp
  from t2 have b: "rlp_encode_element example_store 1000 16 (Some ?e2) =
     Some (1, example_store(1000 := 5))" by simp
  from t3 have c: "\<exists>m'. rlp_encode_element example_store 1000 16 (Some ?e3) = Some (4, m') \<and>
         m' 1000 = 0x83 \<and> read_bytes m' 1001 3 = [252, 253, 254]"
    by (auto simp: numeral_3_eq_3)
  from a b c show ?thesis by blast
qed

text \<open>
  The claim as it was worded asks only for a destination that is large enough and names
  no condition on the place of the source. The one-byte string \<open>[7]\<close> is encoded as the
  one byte \<open>[7]\<close>, but a destination of one byte is refused with \<^verbatim>\<open>ERR_RLP_ENOMEM\<close>: the
  check wants the declared length plus one. An empty string whose source pointer equals
  the destination, and a one-byte string that starts exactly where a destination of 16
  bytes ends, are refused with \<^verbatim>\<open>ERR_RLP_EILLEGALMEM\<close>, although the destination has room
  for their encodings \<open>[0x80]\<close> and \<open>[0x81, 0xF8]\<close> and the regions share no byte.
\<close>

theorem rlp_encode_element_short_forms_counterexample:
  "spec_encode_item (canonical_payload example_store
      \<lparr>type = RLP_TYPE_BYTE_ARRAY, len = 1, buff = 2055\<rparr>) = [7] \<and>
   rlp_encode_element example_store 1000 1
      (Some \<lparr>type = RLP_TYPE_BYTE_ARRAY, len = 1, buff = 2055\<rparr>) =
     Some (ERR_RLP_ENOMEM, example_store) \<and>
   spec_encode_item (canonical_payload example_store
      \<lparr>type = RLP_TYPE_BYTE_ARRAY, len = 0, buff = 1000\<rparr>) = [0x80] \<and>
   rlp_encode_element example_store 1000 16
      (Some \<lparr>type = RLP_TYPE_BYTE_ARRAY, len = 0, buff = 1000\<rparr>) =
     Some (ERR_RLP_EILLEGALMEM, example_store) \<and>
   spec_encode_item (canonical_payload example_store
      \<lparr>type = RLP_TYPE_BYTE_ARRAY, len = 1, buff = 1016\<rparr>) = [0x81, 0xF8] \<and>
   rlp_encode_element example_store 1000 16
      (Some \<lparr>type = RLP_TYPE_BYTE_ARRAY, len = 1, buff = 1016\<rparr>) =
     Some (ERR_RLP_EILLEGALMEM, example_store) \<and>
   ERR_RLP_ENOMEM < 0 \<and> ERR_RLP_EILLEGALMEM < 0"
  by (simp add: rlp_encode_element_def rlp_type_mem_check_def size_t_def rlp_memoverlap_def
      spec_encode_item_def canonical_payload_def read_bytes_def example_store_def
      ERR_RLP_ENOMEM_def ERR_RLP_EILLEGALMEM_def)

section \<open>Where the source departs from the wire format\<close>

lemma bytes_needed_numeral [simp]:
  "bytes_needed 0 = 0"
  "bytes_needed (numeral n) = Suc (bytes_needed (numeral n div 256))"
  by (subst bytes_needed.simps, simp)+

lemma c_int_numeral [simp]: "c_int 0 = 0" "c_int 1 = 1"
  by (simp_all add: c_int_def)

text \<open>
  Claim C1 asks that the long form copies exactly the \<open>L\<close> payload bytes. The source
  copies \<^verbatim>\<open>rlpElementLen + lengthOfLength + 1\<close> bytes. For a byte string of 56 bytes at
  address 2000 and a destination of 58 bytes at address 1000 (exactly the encoded size,
  which the capacity check accepts) the call returns 58, and the two bytes after the
  destination, at 1058 and 1059, which held 34 and 35, now hold the two bytes that follow
  the payload in the store, 8 and 9: the copy read two bytes past the payload and wrote
  two bytes past the destination.
\<close>

theorem rlp_encode_element_long_form_overrun:
  "returned (rlp_encode_element example_store 1000 58
      (Some \<lparr>type = RLP_TYPE_BYTE_ARRAY, len = 56, buff = 2000\<rparr>)) = Some 58 \<and>
   byte_after (rlp_encode_element example_store 1000 58
      (Some \<lparr>type = RLP_TYPE_BYTE_ARRAY, len = 56, buff = 2000\<rparr>)) 1058 = Some 8 \<and>
   byte_after (rlp_encode_element example_store 1000 58
      (Some \<lparr>type = RLP_TYPE_BYTE_ARRAY, len = 56, buff = 2000\<rparr>)) 1059 = Some 9 \<and>
   example_store 1058 = 34 \<and> example_store 1059 = 35 \<and>
   example_store 2056 = 8 \<and> example_store 2057 = 9"
proof -
  let ?e = "\<lparr>type = RLP_TYPE_BYTE_ARRAY, len = 56, buff = 2000\<rparr>"
  have ok: "element_args_ok 1000 58 ?e"
    by (simp add: element_args_ok_def rlp_type_mem_check_def)
  have cap: "len ?e + 1 \<le> 58" and small: "len ?e + 1 < 2 ^ 64" by simp_all
  have ov: "\<not> rlp_memoverlap 1000 58 (buff ?e) (len ?e)" by (simp add: rlp_memoverlap_def)
  have view: "element_view example_store ?e = (2000, 56)" by (simp add: element_view_def)
  have lol: "lengthOfLength_loop 56 0 = Some 1"
    by (simp add: lengthOfLength_loop_nonneg)
  have r: "rlp_encode_element example_store 1000 58 (Some ?e) =
      Some (58, memcpy (write_length_loop (example_store(1000 := 0xB8)) 1000 (int 1) 56) 1002 2000 58)"
    using rlp_encode_element_checked [OF ok cap small ov view]
    by (simp add: lol size_t_def c_int_def)
  show ?thesis
    unfolding r
    by (simp add: returned_def byte_after_def memcpy_def write_length_loop_eq [where k = 1, simplified]
        example_store_def)
qed

text \<open>
  Claim C3 asks that the source buffer of an integer element is never changed. A 64-byte
  integer (\<^verbatim>\<open>RLP_TYPE_INT512\<close>) with a non-zero first byte has a canonical payload of 64
  bytes, so it takes the long form, whose copy runs two bytes too far. With the
  destination of 66 bytes at address 1000 and the integer at address 1067 (one byte lies
  between them, so no overlap is reported) the call returns 66 and the first byte of the
  integer, 43 before the call, is 108 after it.
\<close>

theorem rlp_encode_element_integer_source_overwritten:
  "returned (rlp_encode_element example_store 1000 66
      (Some \<lparr>type = RLP_TYPE_INT512, len = 64, buff = 1067\<rparr>)) = Some 66 \<and>
   byte_after (rlp_encode_element example_store 1000 66
      (Some \<lparr>type = RLP_TYPE_INT512, len = 64, buff = 1067\<rparr>)) 1067 = Some 108 \<and>
   example_store 1067 = 43"
proof -
  let ?e = "\<lparr>type = RLP_TYPE_INT512, len = 64, buff = 1067\<rparr>"
  have ok: "element_args_ok 1000 66 ?e"
    by (simp add: element_args_ok_def rlp_type_mem_check_def size_t_of_int_def)
  have cap: "len ?e + 1 \<le> 66" and small: "len ?e + 1 < 2 ^ 64" by simp_all
  have ov: "\<not> rlp_memoverlap 1000 66 (buff ?e) (len ?e)" by (simp add: rlp_memoverlap_def)
  have view: "element_view example_store ?e = (1067, 64)"
    by (simp add: element_view_def scanZero_loop.simps [of _ _ _ 0] example_store_def)
  have lol: "lengthOfLength_loop 64 0 = Some 1"
    by (simp add: lengthOfLength_loop_nonneg)
  have r: "rlp_encode_element example_store 1000 66 (Some ?e) =
      Some (66, memcpy (write_length_loop (example_store(1000 := 0xB8)) 1000 (int 1) 64) 1002 1067 66)"
    using rlp_encode_element_checked [OF ok cap small ov view]
    by (simp add: lol size_t_def c_int_def)
  show ?thesis
    unfolding r
    by (simp add: returned_def byte_after_def memcpy_def write_length_loop_eq [where k = 1, simplified]
        example_store_def)
qed

text \<open>
  Claim C2 asks that the list of zero elements is encoded as the single byte \<open>0xC0\<close> with
  return value 1. For a destination of one byte the source writes \<open>0xC0\<close> at the first
  byte, but the loop that counts the header bytes counts none for the length 0, and the
  call returns 0.
\<close>

theorem rlp_encode_list_empty_returns_zero:
  "returned (rlp_encode_list example_store 1000 1 (Some [])) = Some 0 \<and>
   byte_after (rlp_encode_list example_store 1000 1 (Some [])) 1000 = Some 0xC0"
  by (simp add: rlp_encode_list_def returned_def byte_after_def listHdrByteCnt_loop_nonpos
      RLP_EXTENDED_LENGTH_THRESHOLD_def RLP_OFFSET_LIST_SHORT_def size_t_def c_int_def
      shift_loop_eq [where h = 0 and k = 0, simplified])

text \<open>
  Claim C5 asks that the shift and the header write stay inside the destination. The
  shift starts at the index \<^verbatim>\<open>listHdrByteCnt + rlpEncodedLen\<close>, which the capacity check
  allows to be equal to the capacity. For the list of the single byte string \<open>[5]\<close> and a
  destination of 2 bytes at address 1000 the call returns 2, and the byte at address
  1002, the first one after the destination, 234 before the call, is 233 after it (the
  old content of address 1001).
\<close>

theorem rlp_encode_list_shift_writes_past_end:
  "returned (rlp_encode_list example_store 1000 2
      (Some [\<lparr>type = RLP_TYPE_BYTE_ARRAY, len = 1, buff = 2053\<rparr>])) = Some 2 \<and>
   byte_after (rlp_encode_list example_store 1000 2
      (Some [\<lparr>type = RLP_TYPE_BYTE_ARRAY, len = 1, buff = 2053\<rparr>])) 1002 = Some 233 \<and>
   example_store 1002 = 234"
proof -
  let ?e = "\<lparr>type = RLP_TYPE_BYTE_ARRAY, len = 1, buff = 2053\<rparr>"
  have ok: "element_args_ok 1000 2 ?e"
    by (simp add: element_args_ok_def rlp_type_mem_check_def)
  have cap: "len ?e + 1 \<le> 2" and small: "len ?e + 1 < 2 ^ 64" by simp_all
  have ov: "\<not> rlp_memoverlap 1000 2 (buff ?e) (len ?e)" by (simp add: rlp_memoverlap_def)
  have view: "element_view example_store ?e = (2053, 1)" by (simp add: element_view_def)
  have v: "example_store 2053 = 5" by (simp add: example_store_def)
  have el: "rlp_encode_element example_store 1000 2 (Some ?e) = Some (1, example_store(1000 := 5))"
    using rlp_encode_element_checked [OF ok cap small ov view]
    by (simp add: v)
  have pre: "preflight_loop 1000 2 2 [?e] = None"
    by (simp add: size_t_def rlp_memoverlap_def)
  have loop: "encode_loop example_store 1000 2 0 [?e] = Some (Inr 1, example_store(1000 := 5))"
    using el by (simp add: size_t_of_int_def size_t_def)
  have cnt: "listHdrByteCnt_loop 1 0 = 1"
    by (simp add: listHdrByteCnt_loop.simps [of 1] listHdrByteCnt_loop_nonpos)
  have r: "rlp_encode_list example_store 1000 2 (Some [?e]) =
      Some (2, (shift_loop (example_store(1000 := 5)) 1000 1 (int (1 + 1)))(1000 := 0xC1))"
    unfolding rlp_encode_list_def option.case pre Let_def loop
    by (simp add: cnt c_int_def size_t_def
        RLP_EXTENDED_LENGTH_THRESHOLD_def RLP_OFFSET_LIST_SHORT_def)
  show ?thesis
    unfolding r shift_loop_eq
    by (simp add: returned_def byte_after_def example_store_def)
qed

section \<open>The error results of encoding one element\<close>

text \<open>
  Claim C7, as the source has it. For an element of fewer than \<open>2 ^ 31\<close> bytes,
  \<^verbatim>\<open>rlp_encode_element\<close> returns \<^verbatim>\<open>ERR_RLP_ENOMEM\<close> exactly when its argument check passes
  and either the capacity is below the declared length plus one, or no overlap is
  reported, the canonical payload is longer than 55 bytes and the capacity is below the
  payload length plus the length bytes plus one. Whenever it returns \<^verbatim>\<open>ERR_RLP_ENOMEM\<close>
  the store is unchanged. In particular a destination of exactly the declared length
  gets \<^verbatim>\<open>ERR_RLP_ENOMEM\<close>.
\<close>

theorem rlp_encode_element_insufficient_capacity:
  assumes small: "len e < 2 ^ 31"
  shows "(returned (rlp_encode_element m out cap (Some e)) = Some ERR_RLP_ENOMEM \<longleftrightarrow>
            element_args_ok out cap e \<and>
            (cap < len e + 1 \<or>
             \<not> rlp_memoverlap out cap (buff e) (len e) \<and> 55 < length (canonical_payload m e) \<and>
             cap < length (canonical_payload m e) + bytes_needed (length (canonical_payload m e)) + 1)) \<and>
         (returned (rlp_encode_element m out cap (Some e)) = Some ERR_RLP_ENOMEM \<longrightarrow>
            rlp_encode_element m out cap (Some e) = Some (ERR_RLP_ENOMEM, m)) \<and>
         (element_args_ok out cap e \<and> cap = len e \<longrightarrow>
            rlp_encode_element m out cap (Some e) = Some (ERR_RLP_ENOMEM, m))"
  using small
proof (cases rule: rlp_encode_element_cases [of e out cap m])
  case badarg
  then show ?thesis
    by (simp add: returned_def ERR_RLP_EBADARG_def ERR_RLP_ENOMEM_def)
next
  case nomem
  then show ?thesis by (auto simp add: returned_def)
next
  case overlap
  then show ?thesis
    by (simp add: returned_def ERR_RLP_ENOMEM_def ERR_RLP_EILLEGALMEM_def)
next
  case nomem_long
  then show ?thesis by (simp add: returned_def)
next
  case (ok r m')
  then show ?thesis by (auto simp add: returned_def)
qed

theorem rlp_encode_element_insufficient_capacity_witness:
  "returned (rlp_encode_element example_store 1000 3
     (Some \<lparr>type = RLP_TYPE_BYTE_ARRAY, len = 3, buff = 2300\<rparr>)) = Some ERR_RLP_ENOMEM \<and>
   rlp_encode_element example_store 1000 3
     (Some \<lparr>type = RLP_TYPE_BYTE_ARRAY, len = 3, buff = 2300\<rparr>) = Some (ERR_RLP_ENOMEM, example_store)"
proof -
  let ?e = "\<lparr>type = RLP_TYPE_BYTE_ARRAY, len = 3, buff = 2300\<rparr>"
  have s: "len ?e < 2 ^ 31" by simp
  have ok: "element_args_ok 1000 3 ?e"
    by (simp add: element_args_ok_def rlp_type_mem_check_def)
  from rlp_encode_element_insufficient_capacity [OF s, of example_store 1000 3] ok
  show ?thesis by auto
qed

text \<open>
  The claim as it was worded compares the capacity with the encoded size. The first check
  of the source compares it with the declared length plus one: a one-byte string \<open>[5]\<close>
  is encoded as the one byte \<open>[5]\<close>, and a 16-bit integer of value 1 as the one byte
  \<open>[1]\<close>, but a destination of one byte for the first and of two bytes for the second is
  refused.
\<close>

theorem rlp_encode_element_insufficient_capacity_counterexample:
  "rlp_encode_element example_store 1000 1 (Some \<lparr>type = RLP_TYPE_BYTE_ARRAY, len = 1, buff = 2053\<rparr>) =
     Some (ERR_RLP_ENOMEM, example_store) \<and>
   spec_encode_item (canonical_payload example_store \<lparr>type = RLP_TYPE_BYTE_ARRAY, len = 1, buff = 2053\<rparr>) = [5] \<and>
   rlp_encode_element example_store 1000 2 (Some \<lparr>type = RLP_TYPE_INT16, len = 2, buff = 2048\<rparr>) =
     Some (ERR_RLP_ENOMEM, example_store) \<and>
   spec_encode_item (canonical_payload example_store \<lparr>type = RLP_TYPE_INT16, len = 2, buff = 2048\<rparr>) = [1]"
  by (simp add: rlp_encode_element_def rlp_type_mem_check_def size_t_def size_t_of_int_def
      spec_encode_item_def canonical_payload_def read_bytes_def example_store_def)

text \<open>
  Claim C8, as the source has it. For an element of fewer than \<open>2 ^ 31\<close> bytes: whenever
  \<^verbatim>\<open>rlp_encode_element\<close> returns \<^verbatim>\<open>ERR_RLP_EILLEGALMEM\<close> the store is unchanged; it returns
  \<^verbatim>\<open>ERR_RLP_EILLEGALMEM\<close> whenever its argument check passes, the capacity is at least the
  declared length plus one, and the destination and the source span intersect; and it
  never returns \<^verbatim>\<open>ERR_RLP_EILLEGALMEM\<close> when at least one byte lies between the two regions.
\<close>

theorem rlp_encode_element_overlap_report:
  assumes small: "len e < 2 ^ 31"
  shows "(returned (rlp_encode_element m out cap (Some e)) = Some ERR_RLP_EILLEGALMEM \<longrightarrow>
            rlp_encode_element m out cap (Some e) = Some (ERR_RLP_EILLEGALMEM, m)) \<and>
         (element_args_ok out cap e \<and> len e + 1 \<le> cap \<and>
          regions_intersect out cap (buff e) (len e) \<longrightarrow>
            rlp_encode_element m out cap (Some e) = Some (ERR_RLP_EILLEGALMEM, m)) \<and>
         (out + cap < buff e \<or> buff e + len e < out \<longrightarrow>
            returned (rlp_encode_element m out cap (Some e)) \<noteq> Some ERR_RLP_EILLEGALMEM)"
  using small
proof (cases rule: rlp_encode_element_cases [of e out cap m])
  case badarg
  then show ?thesis
    by (simp add: returned_def ERR_RLP_EBADARG_def ERR_RLP_EILLEGALMEM_def)
next
  case nomem
  then show ?thesis
    by (simp add: returned_def ERR_RLP_ENOMEM_def ERR_RLP_EILLEGALMEM_def)
next
  case overlap
  then show ?thesis by (simp add: returned_def no_overlap_iff [symmetric])
next
  case nomem_long
  then show ?thesis
    using regions_intersect_overlap [of out cap "buff e" "len e"]
    by (auto simp add: returned_def ERR_RLP_ENOMEM_def ERR_RLP_EILLEGALMEM_def)
next
  case (ok r m')
  then show ?thesis
    using regions_intersect_overlap [of out cap "buff e" "len e"]
    by (auto simp add: returned_def)
qed

theorem rlp_encode_element_overlap_report_witness:
  "regions_intersect 1000 10 1003 4 \<and>
   rlp_encode_element example_store 1000 10 (Some \<lparr>type = RLP_TYPE_BYTE_ARRAY, len = 4, buff = 1003\<rparr>) =
     Some (ERR_RLP_EILLEGALMEM, example_store) \<and>
   returned (rlp_encode_element example_store 1000 10
     (Some \<lparr>type = RLP_TYPE_BYTE_ARRAY, len = 4, buff = 1011\<rparr>)) \<noteq> Some ERR_RLP_EILLEGALMEM"
proof -
  let ?e1 = "\<lparr>type = RLP_TYPE_BYTE_ARRAY, len = 4, buff = 1003\<rparr>"
  let ?e2 = "\<lparr>type = RLP_TYPE_BYTE_ARRAY, len = 4, buff = 1011\<rparr>"
  have s1: "len ?e1 < 2 ^ 31" and s2: "len ?e2 < 2 ^ 31" by simp_all
  have i: "regions_intersect 1000 10 1003 4" by (simp add: regions_intersect_def)
  have ok: "element_args_ok 1000 10 ?e1"
    by (simp add: element_args_ok_def rlp_type_mem_check_def)
  from rlp_encode_element_overlap_report [OF s1, of example_store 1000 10] ok i
  have a: "rlp_encode_element example_store 1000 10 (Some ?e1) = Some (ERR_RLP_EILLEGALMEM, example_store)"
    by simp
  from rlp_encode_element_overlap_report [OF s2, of example_store 1000 10]
  have b: "returned (rlp_encode_element example_store 1000 10 (Some ?e2)) \<noteq> Some ERR_RLP_EILLEGALMEM"
    by simp
  from i a b show ?thesis by blast
qed

text \<open>
  The claim as it was worded fails in both directions. A source that intersects the
  destination but is too long for it is refused with \<^verbatim>\<open>ERR_RLP_ENOMEM\<close>, since the capacity
  check comes first. A source that starts exactly where the destination ends, and an
  empty source at the address of the destination, do not intersect it, and both are
  refused with \<^verbatim>\<open>ERR_RLP_EILLEGALMEM\<close>.
\<close>

theorem rlp_encode_element_overlap_counterexample:
  "regions_intersect 1000 10 1005 20 \<and>
   rlp_encode_element example_store 1000 10 (Some \<lparr>type = RLP_TYPE_BYTE_ARRAY, len = 20, buff = 1005\<rparr>) =
     Some (ERR_RLP_ENOMEM, example_store) \<and>
   \<not> regions_intersect 1000 10 1010 5 \<and>
   rlp_encode_element example_store 1000 10 (Some \<lparr>type = RLP_TYPE_BYTE_ARRAY, len = 5, buff = 1010\<rparr>) =
     Some (ERR_RLP_EILLEGALMEM, example_store) \<and>
   \<not> regions_intersect 1000 10 1000 0 \<and>
   rlp_encode_element example_store 1000 10 (Some \<lparr>type = RLP_TYPE_BYTE_ARRAY, len = 0, buff = 1000\<rparr>) =
     Some (ERR_RLP_EILLEGALMEM, example_store) \<and>
   ERR_RLP_ENOMEM \<noteq> ERR_RLP_EILLEGALMEM"
  by (simp add: regions_intersect_def rlp_encode_element_def rlp_type_mem_check_def size_t_def
      rlp_memoverlap_def ERR_RLP_ENOMEM_def ERR_RLP_EILLEGALMEM_def)

section \<open>The pre-flight pass of the list encoder\<close>

lemma space_needed_simps [simp]:
  "space_needed [] = 0"
  "space_needed (e # es) = len e + 1 + space_needed es"
  "space_needed (xs @ ys) = space_needed xs + space_needed ys"
  by (simp_all add: space_needed_def)

lemma preflight_loop_prefix:
  "space_needed pre \<le> sp \<Longrightarrow> sp < 2 ^ 64 \<Longrightarrow>
   \<forall>x\<in>set pre. \<not> rlp_memoverlap out cap (buff x) (len x) \<Longrightarrow>
   preflight_loop out cap sp (pre @ rest) = preflight_loop out cap (sp - space_needed pre) rest"
proof (induction pre arbitrary: sp)
  case Nil
  then show ?case by simp
next
  case (Cons x pre)
  from Cons.prems have st: "size_t (len x + 1) = len x + 1" by (simp add: size_t_id)
  from Cons.prems have "preflight_loop out cap sp ((x # pre) @ rest) =
      preflight_loop out cap (sp - (len x + 1)) (pre @ rest)"
    unfolding append_Cons preflight_loop.simps st by simp
  also have "\<dots> = preflight_loop out cap (sp - (len x + 1) - space_needed pre) rest"
    using Cons.prems by (intro Cons.IH) simp_all
  finally show ?case by simp
qed

lemma preflight_loop_no_overlap:
  "preflight_loop out cap sp es = None \<Longrightarrow> \<forall>x\<in>set es. \<not> rlp_memoverlap out cap (buff x) (len x)"
  by (induction es arbitrary: sp) (auto split: if_splits)

lemma preflight_loop_error:
  "preflight_loop out cap sp es = Some err \<Longrightarrow> err = ERR_RLP_ENOMEM \<or> err = ERR_RLP_EILLEGALMEM"
  by (induction es arbitrary: sp) (auto split: if_splits)

text \<open>
  Claim C9. When \<^verbatim>\<open>rlp_encode_list\<close> fails its argument check (a null destination, a null
  array or a capacity of 0) it returns \<^verbatim>\<open>ERR_RLP_EBADARG\<close> and the store is unchanged.
  Whenever its first loop ends with an error, the call returns that error, which is
  \<^verbatim>\<open>ERR_RLP_ENOMEM\<close> or \<^verbatim>\<open>ERR_RLP_EILLEGALMEM\<close>, and the store is unchanged. In the words of
  the specification: when the elements before some element pass the pre-flight pass and
  that element does not, the call returns the error of that element and the store is
  unchanged: \<^verbatim>\<open>ERR_RLP_ENOMEM\<close> when the capacity is below the sum of the declared lengths
  plus one up to and including that element, \<^verbatim>\<open>ERR_RLP_EILLEGALMEM\<close> when the space
  suffices and the source of that element is reported to overlap the destination. (The
  capacity is a \<^verbatim>\<open>size_t\<close>, and the declared length of the failing element plus one is
  one too; the \<^verbatim>\<open>int\<close> counter of the loop reaches the failing element.)
\<close>

theorem rlp_encode_list_validation_atomic:
  assumes "cap < 2 ^ 64" and "len e + 1 < 2 ^ 64" and "length es < 2 ^ 31" and "length pre < 2 ^ 31"
  shows "rlp_encode_list m out cap None = Some (ERR_RLP_EBADARG, m) \<and>
         (out = 0 \<or> cap = 0 \<longrightarrow> rlp_encode_list m out cap (Some es) = Some (ERR_RLP_EBADARG, m)) \<and>
         (out \<noteq> 0 \<and> cap \<noteq> 0 \<and> preflight_loop out cap cap es = Some err \<longrightarrow>
            rlp_encode_list m out cap (Some es) = Some (err, m) \<and>
            (err = ERR_RLP_ENOMEM \<or> err = ERR_RLP_EILLEGALMEM)) \<and>
         (out \<noteq> 0 \<and> cap \<noteq> 0 \<and> space_needed pre \<le> cap \<and>
          (\<forall>x\<in>set pre. \<not> rlp_memoverlap out cap (buff x) (len x)) \<and>
          cap < space_needed (pre @ [e]) \<longrightarrow>
            rlp_encode_list m out cap (Some (pre @ e # post)) = Some (ERR_RLP_ENOMEM, m)) \<and>
         (out \<noteq> 0 \<and> cap \<noteq> 0 \<and> space_needed pre \<le> cap \<and>
          (\<forall>x\<in>set pre. \<not> rlp_memoverlap out cap (buff x) (len x)) \<and>
          space_needed (pre @ [e]) \<le> cap \<and> rlp_memoverlap out cap (buff e) (len e) \<longrightarrow>
            rlp_encode_list m out cap (Some (pre @ e # post)) = Some (ERR_RLP_EILLEGALMEM, m))"
proof -
  from assms(2) have st: "size_t (len e + 1) = len e + 1" by (simp add: size_t_id)
  have A: "rlp_encode_list m out cap None = Some (ERR_RLP_EBADARG, m)"
    by (simp add: rlp_encode_list_def)
  have B: "rlp_encode_list m out cap (Some es) = Some (ERR_RLP_EBADARG, m)" if "out = 0 \<or> cap = 0"
    using that by (auto simp add: rlp_encode_list_def)
  have pre: "preflight_loop out cap cap (pre @ e # post) =
             preflight_loop out cap (cap - space_needed pre) (e # post)"
    if "space_needed pre \<le> cap" "\<forall>x\<in>set pre. \<not> rlp_memoverlap out cap (buff x) (len x)"
    using that assms(1) by (intro preflight_loop_prefix)
  have C: "rlp_encode_list m out cap (Some (pre @ e # post)) = Some (ERR_RLP_ENOMEM, m)"
    if "out \<noteq> 0" "cap \<noteq> 0" "space_needed pre \<le> cap"
      "\<forall>x\<in>set pre. \<not> rlp_memoverlap out cap (buff x) (len x)" "cap < space_needed (pre @ [e])"
  proof -
    from that have "cap - space_needed pre < len e + 1" by simp
    then have "preflight_loop out cap cap (pre @ e # post) = Some ERR_RLP_ENOMEM"
      unfolding pre [OF that(3,4)] preflight_loop.simps st by simp
    with that show ?thesis by (simp add: rlp_encode_list_def)
  qed
  have D: "rlp_encode_list m out cap (Some (pre @ e # post)) = Some (ERR_RLP_EILLEGALMEM, m)"
    if "out \<noteq> 0" "cap \<noteq> 0" "space_needed pre \<le> cap"
      "\<forall>x\<in>set pre. \<not> rlp_memoverlap out cap (buff x) (len x)" "space_needed (pre @ [e]) \<le> cap"
      "rlp_memoverlap out cap (buff e) (len e)"
  proof -
    from that have "\<not> cap - space_needed pre < len e + 1" by simp
    with that(6) have "preflight_loop out cap cap (pre @ e # post) = Some ERR_RLP_EILLEGALMEM"
      unfolding pre [OF that(3,4)] preflight_loop.simps st by simp
    with that show ?thesis by (simp add: rlp_encode_list_def)
  qed
  have E: "rlp_encode_list m out cap (Some es) = Some (err, m) \<and>
           (err = ERR_RLP_ENOMEM \<or> err = ERR_RLP_EILLEGALMEM)"
    if "out \<noteq> 0" "cap \<noteq> 0" "preflight_loop out cap cap es = Some err"
    using that preflight_loop_error [OF that(3)] by (simp add: rlp_encode_list_def)
  from A B C D E show ?thesis by blast
qed

theorem rlp_encode_list_validation_atomic_witness:
  "rlp_encode_list example_store 0 4 (Some []) = Some (ERR_RLP_EBADARG, example_store) \<and>
   rlp_encode_list example_store 1000 4
     (Some ([\<lparr>type = RLP_TYPE_BYTE_ARRAY, len = 1, buff = 2053\<rparr>] @
            \<lparr>type = RLP_TYPE_BYTE_ARRAY, len = 3, buff = 2300\<rparr> # [])) =
     Some (ERR_RLP_ENOMEM, example_store) \<and>
   rlp_encode_list example_store 1000 4
     (Some ([\<lparr>type = RLP_TYPE_BYTE_ARRAY, len = 1, buff = 2053\<rparr>] @
            \<lparr>type = RLP_TYPE_BYTE_ARRAY, len = 1, buff = 1002\<rparr> # [])) =
     Some (ERR_RLP_EILLEGALMEM, example_store)"
proof -
  let ?e0 = "\<lparr>type = RLP_TYPE_BYTE_ARRAY, len = 1, buff = 2053\<rparr>"
  let ?e1 = "\<lparr>type = RLP_TYPE_BYTE_ARRAY, len = 3, buff = 2300\<rparr>"
  let ?e2 = "\<lparr>type = RLP_TYPE_BYTE_ARRAY, len = 1, buff = 1002\<rparr>"
  have c: "(4 :: nat) < 2 ^ 64" and l1: "len ?e1 + 1 < 2 ^ 64" and l2: "len ?e2 + 1 < 2 ^ 64"
    and n0: "length ([] :: RlpElement_t list) < 2 ^ 31" and n1: "length [?e0] < 2 ^ 31"
    by simp_all
  have p: "space_needed [?e0] \<le> 4" "\<forall>x\<in>set [?e0]. \<not> rlp_memoverlap 1000 4 (buff x) (len x)"
    by (simp_all add: rlp_memoverlap_def)
  have n: "4 < space_needed ([?e0] @ [?e1])" by simp
  have z: "(0 :: nat) = 0 \<or> (4 :: nat) = 0" and nz: "(1000 :: nat) \<noteq> 0" "(4 :: nat) \<noteq> 0"
    by simp_all
  have o: "space_needed ([?e0] @ [?e2]) \<le> 4" "rlp_memoverlap 1000 4 (buff ?e2) (len ?e2)"
    by (simp_all add: rlp_memoverlap_def)
  from rlp_encode_list_validation_atomic [OF c l1 n0 n1, where m = example_store and out = 0] z
  have a: "rlp_encode_list example_store 0 4 (Some []) = Some (ERR_RLP_EBADARG, example_store)"
    by blast
  from rlp_encode_list_validation_atomic [OF c l1 n0 n1, where m = example_store and out = 1000 and post = "[]"] p n nz
  have b: "rlp_encode_list example_store 1000 4 (Some ([?e0] @ ?e1 # [])) =
     Some (ERR_RLP_ENOMEM, example_store)"
    by blast
  from rlp_encode_list_validation_atomic [OF c l2 n0 n1, where m = example_store and out = 1000 and post = "[]"] p o nz
  have d: "rlp_encode_list example_store 1000 4 (Some ([?e0] @ ?e2 # [])) =
     Some (ERR_RLP_EILLEGALMEM, example_store)"
    by blast
  from a b d show ?thesis by blast
qed

section \<open>The payload pass of the list encoder\<close>

lemma spec_encode_item_length:
  "length (spec_encode_item p) =
     (if length p = 0 then 1 else if length p = 1 \<and> hd p < 0x80 then 1
      else if length p \<le> 55 then length p + 1
      else length p + bytes_needed (length p) + 1)"
  by (simp add: spec_encode_item_def)

lemma spec_encode_item_length_bounds:
  "1 \<le> length (spec_encode_item p)"
  "length p \<le> 55 \<Longrightarrow> length (spec_encode_item p) \<le> length p + 1"
  "55 < length p \<Longrightarrow> length (spec_encode_item p) = length p + bytes_needed (length p) + 1"
  by (simp_all add: spec_encode_item_length)

lemma error_codes_negative:
  "ERR_RLP_EBADARG < 0" "ERR_RLP_ENOMEM < 0" "ERR_RLP_EILLEGALMEM < 0" "ERR_RLP_EUNKNOWN < 0"
  by (simp_all add: ERR_RLP_EBADARG_def ERR_RLP_ENOMEM_def ERR_RLP_EILLEGALMEM_def ERR_RLP_EUNKNOWN_def)

lemma rlp_encode_element_success:
  assumes res: "rlp_encode_element m out cap (Some e) = Some (r, m')" and nn: "0 \<le> r"
    and cap31: "cap < 2 ^ 31" and small: "len e < 2 ^ 31"
  shows "r = int (length (spec_encode_item (canonical_payload m e))) \<and>
         length (spec_encode_item (canonical_payload m e)) \<le> cap \<and>
         read_bytes m' out (length (spec_encode_item (canonical_payload m e))) =
           spec_encode_item (canonical_payload m e) \<and>
         (\<forall>a. a < out \<or>
              out + length (spec_encode_item (canonical_payload m e)) +
                (if 55 < length (canonical_payload m e)
                 then bytes_needed (length (canonical_payload m e)) + 1 else 0) \<le> a \<longrightarrow>
              m' a = m a)"
  using small
proof (cases rule: rlp_encode_element_cases [of e out cap m])
  case badarg
  with res nn error_codes_negative show ?thesis by simp
next
  case nomem
  with res nn error_codes_negative show ?thesis by simp
next
  case overlap
  with res nn error_codes_negative show ?thesis by simp
next
  case nomem_long
  with res nn error_codes_negative show ?thesis by simp
next
  case (ok r' m'')
  from rlp_encode_element_spec [OF ok(1) ok(2) cap31 ok(3) ok(4), of ] res
  have main: "r = int (length (spec_encode_item (canonical_payload m e)))"
       "read_bytes m' out (length (spec_encode_item (canonical_payload m e))) =
           spec_encode_item (canonical_payload m e)"
       "\<forall>a. a < out \<or>
              out + length (spec_encode_item (canonical_payload m e)) +
                (if 55 < length (canonical_payload m e)
                 then bytes_needed (length (canonical_payload m e)) + 1 else 0) \<le> a \<longrightarrow>
              m' a = m a"
    by auto
  have "length (spec_encode_item (canonical_payload m e)) \<le> cap"
  proof (cases "55 < length (canonical_payload m e)")
    case True
    with ok(4) show ?thesis by (simp add: spec_encode_item_length_bounds(3))
  next
    case False
    then have "length (spec_encode_item (canonical_payload m e)) \<le> length (canonical_payload m e) + 1"
      by (intro spec_encode_item_length_bounds(2)) simp
    with canonical_payload_length_le [of m e] ok(2) show ?thesis by simp
  qed
  with main show ?thesis by blast
qed

lemma canonical_payload_cong:
  "(\<And>a. buff e \<le> a \<Longrightarrow> a < buff e + len e \<Longrightarrow> m' a = m a) \<Longrightarrow>
   canonical_payload m' e = canonical_payload m e"
proof -
  assume "\<And>a. buff e \<le> a \<Longrightarrow> a < buff e + len e \<Longrightarrow> m' a = m a"
  then have "read_bytes m' (buff e) (len e) = read_bytes m (buff e) (len e)"
    by (intro read_bytes_cong) simp
  then show ?thesis by (simp add: canonical_payload_def)
qed

lemma bytes_needed_mono: "a \<le> b \<Longrightarrow> bytes_needed a \<le> bytes_needed b"
proof -
  assume "a \<le> b"
  moreover have "b < 256 ^ bytes_needed b" by (simp flip: bytes_needed_le_iff)
  ultimately have "a < 256 ^ bytes_needed b" by simp
  then show ?thesis by (simp add: bytes_needed_le_iff)
qed

lemma encode_loop_Cons:
  assumes "off \<le> cap" "cap < 2 ^ 31"
  shows "encode_loop m out cap off (e # es) =
     (case rlp_encode_element m (out + off) (cap - off) (Some e) of
        None \<Rightarrow> None
      | Some (ret, m') \<Rightarrow>
          if ret < 0 then Some (Inl ret, m')
          else encode_loop m' out cap (size_t (off + size_t_of_int ret)) es)"
proof -
  from assms have "size_t_of_int (int cap - int off) = cap - off"
    by (simp add: size_t_of_int_def nat_diff_distrib')
  then show ?thesis by simp
qed

lemma encode_loop_step:
  assumes loop: "encode_loop m out cap off (e # es) = Some (Inr tot, m')"
    and off: "off \<le> cap" and cap31: "cap < 2 ^ 31" and small: "len e < 2 ^ 31"
  obtains m1 where
    "rlp_encode_element m (out + off) (cap - off) (Some e) =
       Some (int (length (spec_encode_item (canonical_payload m e))), m1)"
    "off + length (spec_encode_item (canonical_payload m e)) \<le> cap"
    "encode_loop m1 out cap (off + length (spec_encode_item (canonical_payload m e))) es =
       Some (Inr tot, m')"
    "read_bytes m1 (out + off) (length (spec_encode_item (canonical_payload m e))) =
       spec_encode_item (canonical_payload m e)"
    "\<forall>a. a < out + off \<or>
          out + off + length (spec_encode_item (canonical_payload m e)) +
            (if 55 < length (canonical_payload m e)
             then bytes_needed (length (canonical_payload m e)) + 1 else 0) \<le> a \<longrightarrow> m1 a = m a"
proof -
  let ?n = "length (spec_encode_item (canonical_payload m e))"
  from loop obtain ret m1 where
    el: "rlp_encode_element m (out + off) (cap - off) (Some e) = Some (ret, m1)"
    and nn: "0 \<le> ret"
    and rest: "encode_loop m1 out cap (size_t (off + size_t_of_int ret)) es = Some (Inr tot, m')"
    unfolding encode_loop_Cons [OF off cap31]
    by (auto split: option.splits prod.splits if_splits)
  from cap31 have sub31: "cap - off < 2 ^ 31" by simp
  from rlp_encode_element_success [OF el nn sub31 small]
  have r: "ret = int ?n" and le: "?n \<le> cap - off"
    and rd: "read_bytes m1 (out + off) ?n = spec_encode_item (canonical_payload m e)"
    and fr: "\<forall>a. a < out + off \<or> out + off + ?n +
                (if 55 < length (canonical_payload m e)
                 then bytes_needed (length (canonical_payload m e)) + 1 else 0) \<le> a \<longrightarrow> m1 a = m a"
    by blast+
  from le off have fit: "off + ?n \<le> cap" by simp
  with cap31 have "size_t (off + size_t_of_int ret) = off + ?n"
    unfolding r by (simp add: size_t_of_int_def size_t_def)
  with rest have rest': "encode_loop m1 out cap (off + ?n) es = Some (Inr tot, m')" by simp
  from that [OF el [unfolded r] fit rest' rd fr] show thesis .
qed

lemma encode_loop_bounds:
  "encode_loop m out cap off es = Some (Inr tot, m') \<Longrightarrow> off \<le> cap \<Longrightarrow> cap < 2 ^ 31 \<Longrightarrow>
   \<forall>x\<in>set es. len x < 2 ^ 31 \<Longrightarrow>
   off \<le> tot \<and> tot \<le> cap \<and> (es \<noteq> [] \<longrightarrow> off < tot)"
proof (induction es arbitrary: m off)
  case Nil
  then show ?case by simp
next
  case (Cons e es)
  from Cons.prems(4) have small: "len e < 2 ^ 31" by simp
  from Cons.prems(1,2,3) small obtain m1 where
    fit: "off + length (spec_encode_item (canonical_payload m e)) \<le> cap"
    and rest: "encode_loop m1 out cap (off + length (spec_encode_item (canonical_payload m e))) es =
       Some (Inr tot, m')"
    by (rule encode_loop_step)
  from Cons.IH [OF rest fit Cons.prems(3)] Cons.prems(4)
    spec_encode_item_length_bounds(1) [of "canonical_payload m e"]
  show ?case by auto
qed

lemma spec_list_header_length:
  "length (spec_list_header n) = (if n \<le> 55 then 1 else bytes_needed n + 1)"
  by (simp add: spec_list_header_def)

lemma spec_list_payload_simps [simp]:
  "spec_list_payload m [] = []"
  "spec_list_payload m (e # es) = spec_encode_item (canonical_payload m e) @ spec_list_payload m es"
  by (simp_all add: spec_list_payload_def)

lemma encode_loop_spec:
  "encode_loop m out cap off es = Some (Inr tot, m') \<Longrightarrow> off \<le> cap \<Longrightarrow> cap < 2 ^ 31 \<Longrightarrow>
   \<forall>x\<in>set es. len x < 2 ^ 31 \<Longrightarrow>
   \<forall>x\<in>set es. out + cap < buff x \<or> buff x + len x < out \<Longrightarrow>
   tot + length (spec_list_header tot) \<le> cap \<Longrightarrow>
   tot = off + length (spec_list_payload m es) \<and>
   read_bytes m' (out + off) (length (spec_list_payload m es)) = spec_list_payload m es \<and>
   (\<forall>a. a < out + off \<or> out + cap \<le> a \<longrightarrow> m' a = m a)"
proof (induction es arbitrary: m off)
  case Nil
  then show ?case by simp
next
  case (Cons e es)
  let ?p = "canonical_payload m e"
  let ?enc = "spec_encode_item ?p"
  let ?n = "length ?enc"
  let ?extra = "if 55 < length ?p then bytes_needed (length ?p) + 1 else 0"
  from Cons.prems(4) have small: "len e < 2 ^ 31" and smalls: "\<forall>x\<in>set es. len x < 2 ^ 31"
    by simp_all
  from Cons.prems(5) have away: "\<forall>x\<in>set es. out + cap < buff x \<or> buff x + len x < out"
    by simp
  from Cons.prems(1,2,3) small obtain m1 where
    fit: "off + ?n \<le> cap"
    and rest: "encode_loop m1 out cap (off + ?n) es = Some (Inr tot, m')"
    and rd: "read_bytes m1 (out + off) ?n = ?enc"
    and fr': "\<forall>a. a < out + off \<or> out + off + ?n + ?extra \<le> a \<longrightarrow> m1 a = m a"
    by (rule encode_loop_step)
  from fr' have fr: "m1 a = m a" if "a < out + off \<or> out + off + ?n + ?extra \<le> a" for a
    using that by blast
  from encode_loop_bounds [OF rest fit Cons.prems(3) smalls]
  have tot: "off + ?n \<le> tot" "tot \<le> cap" by simp_all
  have extra: "off + ?n + ?extra \<le> cap"
  proof (cases "55 < length ?p")
    case True
    then have n: "?n = length ?p + bytes_needed (length ?p) + 1"
      by (rule spec_encode_item_length_bounds(3))
    with tot True have big: "55 < tot" "length ?p \<le> tot" by simp_all
    from bytes_needed_mono [OF big(2)] big(1) Cons.prems(6) tot True
    show ?thesis by (simp add: spec_list_header_length)
  next
    case False
    with fit show ?thesis by simp
  qed
  have same: "canonical_payload m1 x = canonical_payload m x" if "x \<in> set es" for x
  proof (rule canonical_payload_cong)
    fix a assume "buff x \<le> a" "a < buff x + len x"
    with away that have "a < out \<or> out + cap < a" by auto
    with extra show "m1 a = m a" by (intro fr) auto
  qed
  then have pl: "spec_list_payload m1 es = spec_list_payload m es"
    by (simp add: spec_list_payload_def cong: map_cong)
  from Cons.IH [OF rest fit Cons.prems(3) smalls away Cons.prems(6)]
  have ih1: "tot = off + ?n + length (spec_list_payload m es)"
    and ih2: "read_bytes m' (out + (off + ?n)) (length (spec_list_payload m es)) = spec_list_payload m es"
    and ih3: "\<forall>a. a < out + (off + ?n) \<or> out + cap \<le> a \<longrightarrow> m' a = m1 a"
    unfolding pl by simp_all
  have first: "read_bytes m' (out + off) ?n = ?enc"
  proof -
    have "read_bytes m' (out + off) ?n = read_bytes m1 (out + off) ?n"
      by (rule read_bytes_cong) (use ih3 in auto)
    with rd show ?thesis by simp
  qed
  have frame: "m' a = m a" if "a < out + off \<or> out + cap \<le> a" for a
  proof -
    from that have "m' a = m1 a" using ih3 by auto
    moreover from that extra have "m1 a = m a" by (intro fr) auto
    ultimately show ?thesis by simp
  qed
  from ih1 ih2 first frame show ?case
    by (simp add: read_bytes_append add.assoc)
qed

section \<open>The output of the list encoder\<close>

lemma encode_loop_Inl_negative:
  "encode_loop m out cap off es = Some (Inl ret, m') \<Longrightarrow> ret < 0"
  by (induction es arbitrary: m off) (auto split: option.splits if_splits)

lemma bytes_needed_one: "0 < n \<Longrightarrow> n < 256 \<Longrightarrow> bytes_needed n = 1"
  by (subst bytes_needed.simps, subst bytes_needed.simps) simp

lemma bytes_needed_pos: "0 < n \<Longrightarrow> 0 < bytes_needed n"
  by (subst bytes_needed.simps) simp

lemma list_short_bytes:
  "read_bytes ((shift_loop m1 out 1 (int (1 + n)))(out := h)) out (1 + n) = h # read_bytes m1 out n"
proof (rule nth_equalityI)
  show "length (read_bytes ((shift_loop m1 out 1 (int (1 + n)))(out := h)) out (1 + n)) =
        length (h # read_bytes m1 out n)" by simp
next
  fix i assume "i < length (read_bytes ((shift_loop m1 out 1 (int (1 + n)))(out := h)) out (1 + n))"
  then have i: "i < 1 + n" by simp
  show "read_bytes ((shift_loop m1 out 1 (int (1 + n)))(out := h)) out (1 + n) ! i =
        (h # read_bytes m1 out n) ! i"
  proof (cases i)
    case 0
    then show ?thesis by simp
  next
    case (Suc j)
    with i show ?thesis unfolding shift_loop_eq by simp
  qed
qed

lemma pow2_8: "(2 :: nat) ^ (8 * x) = 256 ^ x"
  by (simp add: power_mult)

lemma list_long_bytes:
  "read_bytes ((header_loop (shift_loop m1 out (K + 1) (int (K + 1 + n))) out (K + 1) n 0)(out := h))
      out (K + 1 + n) = h # be_bytes K n @ read_bytes m1 out n"
  (is "read_bytes ?m2 _ _ = ?r")
proof (rule nth_equalityI)
  show "length (read_bytes ?m2 out (K + 1 + n)) = length ?r" by simp
next
  fix i assume "i < length (read_bytes ?m2 out (K + 1 + n))"
  then have i: "i < K + 1 + n" by simp
  consider "i = 0" | "1 \<le> i" "i \<le> K" | "K < i" by linarith
  then show "read_bytes ?m2 out (K + 1 + n) ! i = ?r ! i"
  proof cases
    case 1
    then show ?thesis by simp
  next
    case 2
    then obtain j where j: "i = Suc j" "j < K" by (cases i) auto
    then show ?thesis using i
      by (simp add: header_loop_eq nth_append pow2_8)
  next
    case 3
    define j where "j = i - 1 - K"
    with 3 i have j: "i = K + 1 + j" "j < n" by simp_all
    then have "?m2 (out + i) = m1 (out + j)"
      unfolding shift_loop_eq by (simp add: header_loop_eq)
    then show ?thesis using j i by (simp add: nth_append)
  qed
qed

lemma rlp_encode_list_success:
  assumes res: "rlp_encode_list m out cap (Some es) = Some (r, m')" and nn: "0 \<le> r"
  obtains tot m1 where
    "out \<noteq> 0" "cap \<noteq> 0" "preflight_loop out cap cap es = None"
    "encode_loop m out cap 0 es = Some (Inr tot, m1)"
    "rlp_encode_list m out cap (Some es) =
       (let cnt = listHdrByteCnt_loop (c_int tot) 0;
            listHdrByteCnt = (if tot > 55 then (cnt + 1) mod 256 else cnt)
        in if size_t (listHdrByteCnt + tot) > cap then Some (ERR_RLP_ENOMEM, m1)
           else Some (c_int (size_t (tot + listHdrByteCnt)),
                 (if tot > 55 then
                    (header_loop (shift_loop m1 out listHdrByteCnt (c_int (size_t (listHdrByteCnt + tot))))
                       out listHdrByteCnt tot 0)(out := word_of_nat (0xF7 + (listHdrByteCnt - 1)))
                  else (shift_loop m1 out listHdrByteCnt (c_int (size_t (listHdrByteCnt + tot))))
                         (out := word_of_nat (0xC0 + tot)))))"
proof -
  have args: "out \<noteq> 0 \<and> cap \<noteq> 0"
  proof (rule ccontr)
    assume "\<not> (out \<noteq> 0 \<and> cap \<noteq> 0)"
    then have "rlp_encode_list m out cap (Some es) = Some (ERR_RLP_EBADARG, m)"
      by (auto simp: rlp_encode_list_def)
    with res nn error_codes_negative show False by simp
  qed
  have pre: "preflight_loop out cap cap es = None"
  proof (cases "preflight_loop out cap cap es")
    case (Some err)
    with args have "rlp_encode_list m out cap (Some es) = Some (err, m)"
      by (simp add: rlp_encode_list_def)
    with res nn preflight_loop_error [OF Some] error_codes_negative show ?thesis by auto
  qed simp
  note unf = rlp_encode_list_def [of m out cap "Some es", unfolded option.case, simplified args pre,
      simplified]
  show thesis
  proof (cases "encode_loop m out cap 0 es")
    case None
    with unf res show ?thesis by simp
  next
    case (Some a)
    obtain x m1 where a: "a = (x, m1)" by (cases a)
    show ?thesis
    proof (cases x)
      case (Inl ret)
      with Some a unf have "rlp_encode_list m out cap (Some es) = Some (ret, m1)" by simp
      with res nn encode_loop_Inl_negative [of m out cap 0 es ret m1] Some a Inl show ?thesis by simp
    next
      case (Inr tot)
      with Some a have loop: "encode_loop m out cap 0 es = Some (Inr tot, m1)" by simp
      show ?thesis
        by (rule that [OF _ _ pre loop])
          (use args in \<open>simp_all add: unf loop Let_def RLP_EXTENDED_LENGTH_THRESHOLD_def
             RLP_OFFSET_LIST_LONG_def RLP_OFFSET_LIST_SHORT_def\<close>)
    qed
  qed
qed

text \<open>
  Claim C4, as the source has it. Let \<^verbatim>\<open>rlp_encode_list\<close> return a length (not an error)
  for a non-empty sequence of elements, with a capacity and declared lengths below
  \<open>2 ^ 31\<close>, the sizes that the \<^verbatim>\<open>int\<close> return value and the \<^verbatim>\<open>int\<close> counters of the
  source hold. Then the destination holds the list header followed by the encodings of
  the elements in their order, each as the wire format prescribes for its canonical
  payload: the header is the byte \<open>0xC0 + n\<close> when the payload length \<open>n\<close> is at most 55,
  and the byte \<open>0xF7 + K\<close> followed by the \<open>K\<close> big-endian bytes of \<open>n\<close> otherwise. The
  value returned is the width of the header plus the length of the payload.
\<close>

theorem rlp_encode_list_output:
  assumes res: "rlp_encode_list m out cap (Some es) = Some (r, m')" and nn: "0 \<le> r"
    and ne: "es \<noteq> []" and cap31: "cap < 2 ^ 31" and small: "\<forall>x\<in>set es. len x < 2 ^ 31"
  shows "r = int (length (spec_encode_list m es)) \<and>
         read_bytes m' out (length (spec_encode_list m es)) = spec_encode_list m es"
proof -
  from res nn obtain tot m1 where pre: "preflight_loop out cap cap es = None"
    and loop: "encode_loop m out cap 0 es = Some (Inr tot, m1)"
    and unf: "rlp_encode_list m out cap (Some es) =
       (let cnt = listHdrByteCnt_loop (c_int tot) 0;
            listHdrByteCnt = (if tot > 55 then (cnt + 1) mod 256 else cnt)
        in if size_t (listHdrByteCnt + tot) > cap then Some (ERR_RLP_ENOMEM, m1)
           else Some (c_int (size_t (tot + listHdrByteCnt)),
                 (if tot > 55 then
                    (header_loop (shift_loop m1 out listHdrByteCnt (c_int (size_t (listHdrByteCnt + tot))))
                       out listHdrByteCnt tot 0)(out := word_of_nat (0xF7 + (listHdrByteCnt - 1)))
                  else (shift_loop m1 out listHdrByteCnt (c_int (size_t (listHdrByteCnt + tot))))
                         (out := word_of_nat (0xC0 + tot)))))"
    by (rule rlp_encode_list_success)
  from encode_loop_bounds [OF loop _ cap31 small] ne
  have tot: "0 < tot" "tot \<le> cap" by simp_all
  with cap31 have tot31: "tot < 2 ^ 31" by simp
  define K where "K = bytes_needed tot"
  from tot31 have K4: "K \<le> 4" unfolding K_def by (rule bytes_needed_small)
  from tot have K1: "1 \<le> K" unfolding K_def using bytes_needed_pos [of tot] by simp
  have cnt: "listHdrByteCnt_loop (c_int tot) 0 = K"
    using tot31 K4 by (simp add: c_int_id listHdrByteCnt_loop_eq K_def)
  define hdr where "hdr = (if 55 < tot then K + 1 else 1)"
  have hdr_cnt: "(if tot > 55 then (K + 1) mod 256 else K) = hdr"
    using K4 tot bytes_needed_one [of tot] by (auto simp: hdr_def K_def)
  have hdr_len: "length (spec_list_header tot) = hdr"
    by (simp add: spec_list_header_length hdr_def K_def)
  have hdr5: "hdr \<le> 5" using K4 by (simp add: hdr_def)
  have st: "size_t (hdr + tot) = hdr + tot" "size_t (tot + hdr) = tot + hdr"
    using tot31 hdr5 by (simp_all add: size_t_id)
  from unf have unf': "rlp_encode_list m out cap (Some es) =
        (if hdr + tot > cap then Some (ERR_RLP_ENOMEM, m1)
         else Some (c_int (tot + hdr),
                 (if tot > 55 then
                    (header_loop (shift_loop m1 out hdr (c_int (hdr + tot))) out hdr tot 0)
                      (out := word_of_nat (0xF7 + (hdr - 1)))
                  else (shift_loop m1 out hdr (c_int (hdr + tot)))(out := word_of_nat (0xC0 + tot)))))"
    unfolding cnt Let_def hdr_cnt st .
  have fits: "hdr + tot \<le> cap"
  proof (rule ccontr)
    assume "\<not> hdr + tot \<le> cap"
    with unf' res have "r = ERR_RLP_ENOMEM" by simp
    with nn error_codes_negative show False by simp
  qed
  with cap31 have ci: "c_int (hdr + tot) = int (hdr + tot)" "c_int (tot + hdr) = int (tot + hdr)"
    by (simp_all add: c_int_id)
  from preflight_loop_no_overlap [OF pre]
  have away: "\<forall>x\<in>set es. out + cap < buff x \<or> buff x + len x < out"
    by (simp add: no_overlap_iff)
  from fits have fits': "tot + length (spec_list_header tot) \<le> cap"
    by (simp add: hdr_len add.commute)
  from encode_loop_spec [OF loop _ cap31 small away fits']
  have pl: "tot = length (spec_list_payload m es)"
    and rd: "read_bytes m1 out (length (spec_list_payload m es)) = spec_list_payload m es"
    by simp_all
  have enc: "spec_encode_list m es = spec_list_header tot @ spec_list_payload m es"
    by (simp add: spec_encode_list_def pl)
  have len: "length (spec_encode_list m es) = hdr + tot"
    unfolding enc by (simp add: hdr_len pl [symmetric])
  from unf' res fits ci have r: "r = int (hdr + tot)"
    and m': "m' = (if tot > 55 then
                    (header_loop (shift_loop m1 out hdr (int (hdr + tot))) out hdr tot 0)
                      (out := word_of_nat (0xF7 + (hdr - 1)))
                  else (shift_loop m1 out hdr (int (hdr + tot)))(out := word_of_nat (0xC0 + tot)))"
    by (simp_all add: add.commute)
  have "read_bytes m' out (hdr + tot) = spec_list_header tot @ spec_list_payload m es"
  proof (cases "55 < tot")
    case True
    then have h: "hdr = K + 1" by (simp add: hdr_def)
    from True have "spec_list_header tot = word_of_nat (0xF7 + K) # be_bytes K tot"
      by (simp add: spec_list_header_def K_def)
    with True m' list_long_bytes [of m1 out K tot "word_of_nat (0xF7 + K)"] rd pl
    show ?thesis unfolding h by simp
  next
    case False
    then have h: "hdr = 1" by (simp add: hdr_def)
    from False have "spec_list_header tot = [word_of_nat (0xC0 + tot)]"
      by (simp add: spec_list_header_def)
    with False m' list_short_bytes [of m1 out tot "word_of_nat (0xC0 + tot)"] rd pl
    show ?thesis unfolding h by simp
  qed
  with r len enc show ?thesis by simp
qed

theorem rlp_encode_list_output_witness:
  "\<exists>m'. rlp_encode_list example_store 1000 16
          (Some [\<lparr>type = RLP_TYPE_BYTE_ARRAY, len = 1, buff = 2053\<rparr>,
                 \<lparr>type = RLP_TYPE_BYTE_ARRAY, len = 3, buff = 2300\<rparr>]) = Some (6, m') \<and>
        read_bytes m' 1000 6 = [0xC5, 5, 0x83, 252, 253, 254]"
proof -
  let ?e0 = "\<lparr>type = RLP_TYPE_BYTE_ARRAY, len = 1, buff = 2053\<rparr>"
  let ?e1 = "\<lparr>type = RLP_TYPE_BYTE_ARRAY, len = 3, buff = 2300\<rparr>"
  let ?m1 = "example_store(1000 := 5)"
  let ?m2 = "memcpy (?m1(1001 := 0x83)) 1002 2300 3"
  have v: "example_store 2053 = 5" by (simp add: example_store_def)
  have ok0: "element_args_ok 1000 16 ?e0" and ok1: "element_args_ok 1001 15 ?e1"
    by (simp_all add: element_args_ok_def rlp_type_mem_check_def)
  have c0: "len ?e0 + 1 \<le> 16" "len ?e0 + 1 < 2 ^ 64" and c1: "len ?e1 + 1 \<le> 15" "len ?e1 + 1 < 2 ^ 64"
    by simp_all
  have o0: "\<not> rlp_memoverlap 1000 16 (buff ?e0) (len ?e0)"
    and o1: "\<not> rlp_memoverlap 1001 15 (buff ?e1) (len ?e1)"
    by (simp_all add: rlp_memoverlap_def)
  have v0: "element_view example_store ?e0 = (2053, 1)" and v1: "element_view ?m1 ?e1 = (2300, 3)"
    by (simp_all add: element_view_def)
  have el0: "rlp_encode_element example_store 1000 16 (Some ?e0) = Some (1, ?m1)"
    using rlp_encode_element_checked [OF ok0 c0 o0 v0] by (simp add: v)
  have el1: "rlp_encode_element ?m1 1001 15 (Some ?e1) = Some (4, ?m2)"
    using rlp_encode_element_checked [OF ok1 c1 o1 v1] by simp
  have pre: "preflight_loop 1000 16 16 [?e0, ?e1] = None"
    by (simp add: size_t_def rlp_memoverlap_def)
  have loop: "encode_loop example_store 1000 16 0 [?e0, ?e1] = Some (Inr 5, ?m2)"
    using el0 el1 by (simp add: size_t_of_int_def size_t_def)
  have cnt: "listHdrByteCnt_loop 5 0 = 1"
    by (simp add: listHdrByteCnt_loop.simps [of 5] listHdrByteCnt_loop_nonpos)
  have r: "rlp_encode_list example_store 1000 16 (Some [?e0, ?e1]) =
      Some (6, (shift_loop ?m2 1000 1 (int (1 + 5)))(1000 := 0xC5))"
    unfolding rlp_encode_list_def option.case pre Let_def loop
    by (simp add: cnt c_int_def size_t_def
        RLP_EXTENDED_LENGTH_THRESHOLD_def RLP_OFFSET_LIST_SHORT_def)
  have sm: "\<forall>x\<in>set [?e0, ?e1]. len x < 2 ^ 31" by simp
  have spec: "spec_encode_list example_store [?e0, ?e1] = [0xC5, 5, 0x83, 252, 253, 254]"
    by (simp add: spec_encode_list_def spec_list_header_def spec_encode_item_def
        canonical_payload_def read_bytes_def example_store_def)
  have l: "length [0xC5, 5, 0x83, 252, 253, 254 :: byte] = 6" by simp
  have h: "0 \<le> (6 :: int)" "[?e0, ?e1] \<noteq> []" "(16 :: nat) < 2 ^ 31" by simp_all
  note t = rlp_encode_list_output [OF r h sm, unfolded spec l]
  from t have "read_bytes ((shift_loop ?m2 1000 1 (int (1 + 5)))(1000 := 0xC5)) 1000 6 =
        [0xC5, 5, 0x83, 252, 253, 254]" ..
  with r show ?thesis by blast
qed

lemma lengthOfLength_loop_large: "lengthOfLength_loop 2147483638 0 = Some 4"
  by (simp add: lengthOfLength_loop_nonneg)

lemma large_element:
  assumes "out \<noteq> 0" "2147483643 \<le> cap" "out + cap < 8000000000"
  shows "rlp_encode_element m out cap (Some \<lparr>type = RLP_TYPE_BYTE_ARRAY, len = 2147483638, buff = 8000000000\<rparr>) =
     Some (2147483643,
       memcpy (write_length_loop (m(out := 0xBB)) out (int 4) 2147483638) (5 + out) 8000000000 2147483643)"
proof -
  let ?e = "\<lparr>type = RLP_TYPE_BYTE_ARRAY, len = 2147483638, buff = 8000000000\<rparr>"
  from assms have ok: "element_args_ok out cap ?e"
    by (simp add: element_args_ok_def rlp_type_mem_check_def)
  from assms have cap: "len ?e + 1 \<le> cap" by simp
  have small: "len ?e + 1 < 2 ^ 64" by simp
  from assms have ov: "\<not> rlp_memoverlap out cap (buff ?e) (len ?e)"
    by (simp add: rlp_memoverlap_def)
  have view: "element_view m ?e = (8000000000, 2147483638)" by (simp add: element_view_def)
  note c = rlp_encode_element_checked [OF ok cap small ov view]
  have ci: "c_int 2147483638 = 2147483638" "c_int 4 = 4" "c_int 2147483643 = 2147483643"
    by (simp_all add: c_int_def)
  have st: "size_t 2147483643 = 2147483643" by (simp add: size_t_def)
  have a: "(2147483638 :: nat) + 4 + 1 = 2147483643" by simp
  have n: "\<not> (2147483638 :: nat) \<le> 55" "(2147483638 :: nat) \<noteq> 0" "(2147483638 :: nat) \<noteq> 1" by simp_all
  show ?thesis
    unfolding c using assms(2) n
    apply (simp only: if_False ci lengthOfLength_loop_large option.case a st simp_thms)
    apply simp
    done
qed

text \<open>
  Without the bound on the sizes the claim fails. Three byte strings of 2147483638 bytes
  each (they may share their source) encode to 2147483643 bytes each, 6442450929 bytes in
  total; the header of the list is then \<open>0xFC\<close> followed by five length bytes, and the
  encoding has 6442450935 bytes. The source keeps the total in an \<^verbatim>\<open>int\<close> while it counts
  the length bytes: with a destination of 7000000000 bytes the call returns 2147483638,
  which is not negative, and the first byte of the destination is \<open>0xFB\<close>.
\<close>

theorem rlp_encode_list_large_counterexample:
  "returned (rlp_encode_list example_store 1000 7000000000
     (Some [\<lparr>type = RLP_TYPE_BYTE_ARRAY, len = 2147483638, buff = 8000000000\<rparr>,
            \<lparr>type = RLP_TYPE_BYTE_ARRAY, len = 2147483638, buff = 8000000000\<rparr>,
            \<lparr>type = RLP_TYPE_BYTE_ARRAY, len = 2147483638, buff = 8000000000\<rparr>])) = Some 2147483638 \<and>
   byte_after (rlp_encode_list example_store 1000 7000000000
     (Some [\<lparr>type = RLP_TYPE_BYTE_ARRAY, len = 2147483638, buff = 8000000000\<rparr>,
            \<lparr>type = RLP_TYPE_BYTE_ARRAY, len = 2147483638, buff = 8000000000\<rparr>,
            \<lparr>type = RLP_TYPE_BYTE_ARRAY, len = 2147483638, buff = 8000000000\<rparr>])) 1000 = Some 0xFB \<and>
   length (spec_encode_list example_store
     [\<lparr>type = RLP_TYPE_BYTE_ARRAY, len = 2147483638, buff = 8000000000\<rparr>,
      \<lparr>type = RLP_TYPE_BYTE_ARRAY, len = 2147483638, buff = 8000000000\<rparr>,
      \<lparr>type = RLP_TYPE_BYTE_ARRAY, len = 2147483638, buff = 8000000000\<rparr>]) = 6442450935 \<and>
   hd (spec_encode_list example_store
     [\<lparr>type = RLP_TYPE_BYTE_ARRAY, len = 2147483638, buff = 8000000000\<rparr>,
      \<lparr>type = RLP_TYPE_BYTE_ARRAY, len = 2147483638, buff = 8000000000\<rparr>,
      \<lparr>type = RLP_TYPE_BYTE_ARRAY, len = 2147483638, buff = 8000000000\<rparr>]) = 0xFC"
proof -
  let ?e = "\<lparr>type = RLP_TYPE_BYTE_ARRAY, len = 2147483638, buff = 8000000000\<rparr>"
  let ?m0 = "example_store"
  let ?m1 = "memcpy (write_length_loop (?m0(1000 := 0xBB)) 1000 (int 4) 2147483638)
               1005 8000000000 2147483643"
  let ?m2 = "memcpy (write_length_loop (?m1(2147484643 := 0xBB)) 2147484643 (int 4) 2147483638)
               2147484648 8000000000 2147483643"
  let ?m3 = "memcpy (write_length_loop (?m2(4294968286 := 0xBB)) 4294968286 (int 4) 2147483638)
               4294968291 8000000000 2147483643"
  have el1: "rlp_encode_element ?m0 1000 7000000000 (Some ?e) = Some (2147483643, ?m1)"
    using large_element [of 1000 7000000000 ?m0] by simp
  have el2: "rlp_encode_element ?m1 2147484643 4852516357 (Some ?e) = Some (2147483643, ?m2)"
    using large_element [of 2147484643 4852516357 ?m1] by simp
  have el3: "rlp_encode_element ?m2 4294968286 2705032714 (Some ?e) = Some (2147483643, ?m3)"
    using large_element [of 4294968286 2705032714 ?m2] by simp
  have sub: "size_t_of_int (int 7000000000 - int 0) = 7000000000"
    "size_t_of_int (int 7000000000 - int 2147483643) = 4852516357"
    "size_t_of_int (int 7000000000 - int 4294967286) = 2705032714"
    "size_t (0 + size_t_of_int 2147483643) = 2147483643"
    "size_t (2147483643 + size_t_of_int 2147483643) = 4294967286"
    "size_t (4294967286 + size_t_of_int 2147483643) = 6442450929"
    by (simp_all add: size_t_of_int_def size_t_def)
  have ad: "(1000 :: nat) + 0 = 1000" "(1000 :: nat) + 2147483643 = 2147484643"
    "(1000 :: nat) + 4294967286 = 4294968286" by simp_all
  have nneg: "\<not> (2147483643 :: int) < 0" by simp
  have loop: "encode_loop ?m0 1000 7000000000 0 [?e, ?e, ?e] = Some (Inr 6442450929, ?m3)"
    by (simp only: encode_loop.simps sub ad el1 el2 el3 option.case prod.case nneg if_False)
  have pre: "preflight_loop 1000 7000000000 7000000000 [?e, ?e, ?e] = None"
    by (simp add: size_t_def rlp_memoverlap_def)
  have ci: "c_int 6442450929 = 2147483633" by (simp add: c_int_def)
  have cnt: "listHdrByteCnt_loop 2147483633 0 = 4"
    using listHdrByteCnt_loop_eq [of 2147483633 0] by simp
  have th: "(6442450929 :: nat) > RLP_EXTENDED_LENGTH_THRESHOLD"
    by (simp add: RLP_EXTENDED_LENGTH_THRESHOLD_def)
  have hdr: "((4 :: nat) + 1) mod 256 = 5" by simp
  have st: "size_t (5 + 6442450929) = 6442450934" "size_t (6442450929 + 5) = 6442450934"
    by (simp_all add: size_t_def)
  have ci2: "c_int 6442450934 = 2147483638" by (simp add: c_int_def)
  have fit: "\<not> (6442450934 :: nat) > 7000000000" by simp
  have nz: "\<not> ((1000 :: nat) = 0 \<or> (7000000000 :: nat) = 0)" by simp
  have r: "rlp_encode_list ?m0 1000 7000000000 (Some [?e, ?e, ?e]) =
      Some (2147483638,
        (header_loop (shift_loop ?m3 1000 5 2147483638) 1000 5 6442450929 0)
          (1000 := word_of_nat (RLP_OFFSET_LIST_LONG + (5 - 1))))"
    by (simp only: rlp_encode_list_def option.case pre Let_def loop sum.case prod.case ci cnt th
        if_True hdr st ci2 fit if_False nz)
  have lenp: "length (spec_list_payload ?m0 [?e, ?e, ?e]) = 6442450929"
    by (simp add: spec_encode_item_length canonical_payload_bytes)
  have bn: "bytes_needed 6442450929 = 5" by (simp add: bytes_needed_one)
  have enc: "spec_encode_list ?m0 [?e, ?e, ?e] =
      word_of_nat (0xF7 + 5) # be_bytes 5 6442450929 @ spec_list_payload ?m0 [?e, ?e, ?e]"
    unfolding spec_encode_list_def lenp spec_list_header_def bn by simp
  show ?thesis
    unfolding r enc
    by (simp add: returned_def byte_after_def RLP_OFFSET_LIST_LONG_def lenp
        del: spec_list_payload_simps)
qed

section \<open>Errors of the payload pass\<close>

lemma encode_loop_append:
  "encode_loop m out cap off (pre @ rest) =
     (case encode_loop m out cap off pre of
        None \<Rightarrow> None
      | Some (Inl r, m') \<Rightarrow> Some (Inl r, m')
      | Some (Inr off', m') \<Rightarrow> encode_loop m' out cap off' rest)"
  by (induction pre arbitrary: m off) (auto split: option.splits)

lemma preflight_loop_passes:
  assumes "space_needed es \<le> cap" "cap < 2 ^ 64"
    "\<forall>x\<in>set es. \<not> rlp_memoverlap out cap (buff x) (len x)"
  shows "preflight_loop out cap cap es = None"
  using preflight_loop_prefix [OF assms, of "[]"] by simp

text \<open>
  From a negative start the loop for the length of a length does not return.
\<close>

lemma lengthOfLength_loop_Some_nonneg:
  assumes "lengthOfLength_loop t k = Some y"
  shows "0 \<le> t"
proof -
  have step: "0 \<le> t'"
    if "\<And>a b c. rec a b = Some c \<Longrightarrow> 0 \<le> a"
      and "(if t' \<noteq> 0 then rec (t' div 256) (k' + 1) else Some k') = Some y'"
    for rec :: "int \<Rightarrow> nat \<Rightarrow> nat option" and t' k' y'
  proof (cases "t' = 0")
    case True
    then show ?thesis by simp
  next
    case False
    with that(2) have "rec (t' div 256) (k' + 1) = Some y'" by simp
    from that(1) [OF this] show ?thesis by (simp add: pos_imp_zdiv_nonneg_iff)
  qed
  show ?thesis
    by (rule lengthOfLength_loop.raw_induct [where P = "\<lambda>t k y. 0 \<le> t", OF step assms])
qed

lemma lengthOfLength_loop_negative: "t < 0 \<Longrightarrow> lengthOfLength_loop t k = None"
  using lengthOfLength_loop_Some_nonneg [of t k] by (cases "lengthOfLength_loop t k") auto

lemma c_int_le: "0 \<le> c_int n \<Longrightarrow> c_int n \<le> int n \<and> c_int n < 2 ^ 31"
  by (auto simp: c_int_def split: if_splits intro: order_trans [OF mod_less_eq_dividend])

lemma size_t_le: "size_t n \<le> n"
  by (simp add: size_t_def)

lemma rlp_encode_element_ret_le:
  assumes res: "rlp_encode_element m out cap (Some e) = Some (r, m')" and nn: "0 \<le> r"
    and small: "len e + 1 < 2 ^ 64"
  shows "size_t_of_int r \<le> cap \<and> r < 2 ^ 31"
proof -
  have ok: "element_args_ok out cap e"
  proof (rule ccontr)
    assume "\<not> element_args_ok out cap e"
    then have "rlp_encode_element m out cap (Some e) = Some (ERR_RLP_EBADARG, m)"
      by (simp add: rlp_encode_element_def element_args_ok_def)
    with res nn error_codes_negative show False by simp
  qed
  from small have st: "size_t (Suc (len e)) = Suc (len e)" by (simp add: size_t_id)
  have cap: "len e + 1 \<le> cap"
  proof (rule ccontr)
    assume "\<not> len e + 1 \<le> cap"
    with ok have "rlp_encode_element m out cap (Some e) = Some (ERR_RLP_ENOMEM, m)"
      by (simp add: rlp_encode_element_def element_args_ok_def st)
    with res nn error_codes_negative show False by simp
  qed
  have ov: "\<not> rlp_memoverlap out cap (buff e) (len e)"
  proof
    assume "rlp_memoverlap out cap (buff e) (len e)"
    with ok cap have "rlp_encode_element m out cap (Some e) = Some (ERR_RLP_EILLEGALMEM, m)"
      by (simp add: rlp_encode_element_def element_args_ok_def st)
    with res nn error_codes_negative show False by simp
  qed
  obtain b' L where view: "element_view m e = (b', L)" by (cases "element_view m e")
  from element_view_spec [OF view] have L: "L \<le> len e" by simp
  note code = rlp_encode_element_checked [OF ok cap small ov view]
  have r31: "r < 2 ^ 31"
    using code res c_int_le [of "size_t (L + the (lengthOfLength_loop (c_int L) 0) + 1)"] nn
      error_codes_negative
    by (auto split: if_splits option.splits)
  have "r \<le> int cap"
  proof (cases "L \<le> 55")
    case True
    with code res L cap show ?thesis by (auto split: if_splits)
  next
    case False
    with code res obtain K where "lengthOfLength_loop (c_int L) 0 = Some K"
      and "\<not> cap < size_t (L + K + 1)" and "r = c_int (size_t (L + K + 1))"
      using nn error_codes_negative by (auto split: if_splits option.splits)
    with c_int_le [of "size_t (L + K + 1)"] nn show ?thesis by simp
  qed
  with nn r31 show ?thesis by (simp add: size_t_of_int_def)
qed

lemma encode_loop_Cons_size_t:
  assumes "off \<le> cap" "cap < 2 ^ 64"
  shows "encode_loop m out cap off (e # es) =
     (case rlp_encode_element m (out + off) (cap - off) (Some e) of
        None \<Rightarrow> None
      | Some (ret, m') \<Rightarrow>
          if ret < 0 then Some (Inl ret, m')
          else encode_loop m' out cap (size_t (off + size_t_of_int ret)) es)"
proof -
  from assms have "size_t_of_int (int cap - int off) = cap - off"
    by (simp add: size_t_of_int_def nat_diff_distrib')
  then show ?thesis by simp
qed

lemma encode_loop_offset_le:
  "encode_loop m out cap off es = Some (Inr tot, m') \<Longrightarrow> off \<le> cap \<Longrightarrow> cap < 2 ^ 64 \<Longrightarrow>
   \<forall>x\<in>set es. len x + 1 < 2 ^ 64 \<Longrightarrow> off \<le> tot \<and> tot \<le> cap"
proof (induction es arbitrary: m off)
  case Nil
  then show ?case by simp
next
  case (Cons e es)
  from Cons.prems(1) obtain ret m1 where
    el: "rlp_encode_element m (out + off) (cap - off) (Some e) = Some (ret, m1)"
    and nn: "0 \<le> ret"
    and rest: "encode_loop m1 out cap (size_t (off + size_t_of_int ret)) es = Some (Inr tot, m')"
    unfolding encode_loop_Cons_size_t [OF Cons.prems(2,3)]
    by (auto split: option.splits prod.splits if_splits)
  from Cons.prems(4) have "len e + 1 < 2 ^ 64" by simp
  from rlp_encode_element_ret_le [OF el nn this] have le: "size_t_of_int ret \<le> cap - off" by simp
  with Cons.prems(2,3) have st: "size_t (off + size_t_of_int ret) = off + size_t_of_int ret"
    by (simp add: size_t_id)
  from le Cons.prems(2) have fit: "off + size_t_of_int ret \<le> cap" by simp
  from Cons.IH [OF rest [unfolded st] fit Cons.prems(3)] Cons.prems(4)
  show ?case by simp
qed

text \<open>
  Claim C10. Let the arguments of \<^verbatim>\<open>rlp_encode_list\<close> pass its check and all elements pass
  the pre-flight pass (the capacity, a \<^verbatim>\<open>size_t\<close>, covers the declared length plus one of
  every element, no source is reported to overlap the destination, and the \<^verbatim>\<open>int\<close>
  counter of the loop reaches the element in question). If the payload pass encodes the
  elements before some element successfully, up to the offset \<open>off\<close>, and
  \<^verbatim>\<open>rlp_encode_element\<close> returns a negative value for that element at that offset, then
  \<^verbatim>\<open>rlp_encode_list\<close> returns this very value, and the store is the one that the failing
  call left: the elements after it are not looked at.
\<close>

theorem rlp_encode_list_forwards_element_error:
  assumes out: "out \<noteq> 0" and cap0: "cap \<noteq> 0" and cap64: "cap < 2 ^ 64"
    and count: "length pre < 2 ^ 31"
    and space: "space_needed (pre @ e # post) \<le> cap"
    and away: "\<forall>x\<in>set (pre @ e # post). \<not> rlp_memoverlap out cap (buff x) (len x)"
    and before: "encode_loop m out cap 0 pre = Some (Inr off, m1)"
    and fails: "rlp_encode_element m1 (out + off) (cap - off) (Some e) = Some (r, m2)" and neg: "r < 0"
  shows "rlp_encode_list m out cap (Some (pre @ e # post)) = Some (r, m2)"
proof -
  have pre: "preflight_loop out cap cap (pre @ e # post) = None"
    using space cap64 away by (rule preflight_loop_passes)
  have small: "\<forall>x\<in>set pre. len x + 1 < 2 ^ 64"
  proof
    fix x assume "x \<in> set pre"
    then have "len x + 1 \<le> space_needed pre"
      by (induction pre) auto
    with space cap64 show "len x + 1 < 2 ^ 64" by simp
  qed
  from encode_loop_offset_le [OF before _ cap64 small] have off: "off \<le> cap" by simp
  have "encode_loop m out cap 0 (pre @ e # post) = encode_loop m1 out cap off (e # post)"
    by (simp add: encode_loop_append before)
  also have "\<dots> = Some (Inl r, m2)"
    unfolding encode_loop_Cons_size_t [OF off cap64] using fails neg by simp
  finally have loop: "encode_loop m out cap 0 (pre @ e # post) = Some (Inl r, m2)" .
  show ?thesis
    unfolding rlp_encode_list_def option.case pre Let_def loop using out cap0 by simp
qed

theorem rlp_encode_list_forwards_element_error_witness:
  "rlp_encode_list example_store 1000 16
     (Some ([\<lparr>type = RLP_TYPE_BYTE_ARRAY, len = 1, buff = 2053\<rparr>] @
            \<lparr>type = RLP_TYPE_INT16, len = 3, buff = 2300\<rparr> # [])) =
     Some (ERR_RLP_EBADARG, example_store(1000 := 5))"
proof -
  let ?e0 = "\<lparr>type = RLP_TYPE_BYTE_ARRAY, len = 1, buff = 2053\<rparr>"
  let ?e1 = "\<lparr>type = RLP_TYPE_INT16, len = 3, buff = 2300\<rparr>"
  let ?m1 = "example_store(1000 := 5)"
  have v: "example_store 2053 = 5" by (simp add: example_store_def)
  have ok0: "element_args_ok 1000 16 ?e0"
    by (simp add: element_args_ok_def rlp_type_mem_check_def)
  have c0: "len ?e0 + 1 \<le> 16" "len ?e0 + 1 < 2 ^ 64" by simp_all
  have o0: "\<not> rlp_memoverlap 1000 16 (buff ?e0) (len ?e0)" by (simp add: rlp_memoverlap_def)
  have v0: "element_view example_store ?e0 = (2053, 1)" by (simp add: element_view_def)
  have el0: "rlp_encode_element example_store 1000 16 (Some ?e0) = Some (1, ?m1)"
    using rlp_encode_element_checked [OF ok0 c0 o0 v0] by (simp add: v)
  have before: "encode_loop example_store 1000 16 0 [?e0] = Some (Inr 1, ?m1)"
    using el0 by (simp add: size_t_of_int_def size_t_def)
  have fails: "rlp_encode_element ?m1 (1000 + 1) (16 - 1) (Some ?e1) = Some (ERR_RLP_EBADARG, ?m1)"
    by (simp add: rlp_encode_element_def rlp_type_mem_check_def size_t_of_int_def)
  have h: "(1000 :: nat) \<noteq> 0" "(16 :: nat) \<noteq> 0" "(16 :: nat) < 2 ^ 64"
    "length [?e0] < 2 ^ 31"
    "space_needed ([?e0] @ ?e1 # []) \<le> 16"
    "\<forall>x\<in>set ([?e0] @ ?e1 # []). \<not> rlp_memoverlap 1000 16 (buff x) (len x)"
    by (simp_all add: rlp_memoverlap_def)
  have neg: "ERR_RLP_EBADARG < 0" by (simp add: ERR_RLP_EBADARG_def)
  show ?thesis
    by (rule rlp_encode_list_forwards_element_error [OF h before fails neg])
qed

end
